theory Spec2Isabelle
  imports Main "HOL-Library.Sublist"
begin

section \<open>Data model\<close>

text \<open>
  The embedding follows \<^verbatim>\<open>src/app.py\<close>, functions \<^verbatim>\<open>get_header_opt\<close> and
  \<^verbatim>\<open>parse_multipart\<close>.

  Python \<^verbatim>\<open>bytes\<close> are lists of 8-bit characters; a Python \<^verbatim>\<open>str\<close> is a list of
  Unicode code points. \<open>lit\<close> writes a \<^verbatim>\<open>str\<close> literal from its ASCII text.
\<close>

type_synonym bytes = "char list"
type_synonym str = "nat list"

definition lit :: "string \<Rightarrow> str" where
  "lit s = map of_char s"

abbreviation LF :: char where "LF \<equiv> CHR 0x0A"
abbreviation CR :: char where "CR \<equiv> CHR 0x0D"
abbreviation CRLF :: bytes where "CRLF \<equiv> [CR, LF]"

text \<open>The exceptions that the two functions and the library calls they make can raise.\<close>

datatype error =
    HeaderLookupError    \<comment> \<open>\<^verbatim>\<open>req_headers["Content-Type"]\<close> has no value to search\<close>
  | AttributeError       \<comment> \<open>\<^verbatim>\<open>b.strip()\<close> on \<^verbatim>\<open>None\<close>\<close>
  | UnicodeEncodeError   \<comment> \<open>\<^verbatim>\<open>.encode("utf-8")\<close>\<close>
  | UnicodeDecodeError   \<comment> \<open>\<^verbatim>\<open>.decode("utf-8")\<close>\<close>
  | OSError              \<comment> \<open>\<^verbatim>\<open>buf.seek(-2, 2)\<close> before the start of the file\<close>

subsection \<open>The temporary file used as a byte buffer\<close>

record buffer =
  data :: bytes
  pos :: nat

definition TemporaryFile :: buffer where
  "TemporaryFile = \<lparr>data = [], pos = 0\<rparr>"

text \<open>\<^verbatim>\<open>buf.write(line)\<close>: the bytes go in at the cursor, which moves past them.\<close>

definition buf_write :: "buffer \<Rightarrow> bytes \<Rightarrow> buffer" where
  "buf_write b line =
     (if line = [] then b
      else \<lparr>data = take (pos b) (data b) @ replicate (pos b - length (data b)) (CHR 0x00) @ line
                    @ drop (pos b + length line) (data b),
            pos = pos b + length line\<rparr>)"

text \<open>\<^verbatim>\<open>buf.seek(offset, 2)\<close>: relative to the end; a negative target raises.\<close>

definition buf_seek_end :: "buffer \<Rightarrow> int \<Rightarrow> error + buffer" where
  "buf_seek_end b offset =
     (let target = int (length (data b)) + offset
      in if target < 0 then Inl OSError else Inr (b\<lparr>pos := nat target\<rparr>))"

text \<open>\<^verbatim>\<open>buf.truncate()\<close>: resize to the cursor, which stays.\<close>

definition buf_truncate :: "buffer \<Rightarrow> buffer" where
  "buf_truncate b =
     b\<lparr>data := take (pos b) (data b) @ replicate (pos b - length (data b)) (CHR 0x00)\<rparr>"

text \<open>The dict appended to \<^verbatim>\<open>multipart_form_data\<close>.\<close>

record part =
  form_name :: str
  filename :: str
  buf :: buffer

section \<open>Library functions the code calls\<close>

subsection \<open>\<^verbatim>\<open>readline\<close> on a binary stream\<close>

text \<open>
  The stream is the list of bytes still unread. \<^verbatim>\<open>readline()\<close> returns the bytes up to
  and including the first LF, or all that is left when there is none, and the empty
  bytes object at end of stream, every time it is called there.
\<close>

fun readline :: "bytes \<Rightarrow> bytes \<times> bytes" where
  "readline [] = ([], [])"
| "readline (c # cs) =
     (if c = LF then ([c], cs) else (case readline cs of (l, r) \<Rightarrow> (c # l, r)))"

subsection \<open>Whitespace\<close>

text \<open>\<^verbatim>\<open>bytes.rstrip()\<close> removes trailing ASCII whitespace.\<close>

definition ascii_space :: "char \<Rightarrow> bool" where
  "ascii_space c = (c \<in> {CHR 0x20, CHR 0x09, CHR 0x0A, CHR 0x0D, CHR 0x0B, CHR 0x0C})"

definition rstrip :: "bytes \<Rightarrow> bytes" where
  "rstrip s = rev (dropWhile ascii_space (rev s))"

text \<open>\<^verbatim>\<open>str.strip()\<close> and the class \<^verbatim>\<open>\s\<close> of a \<^verbatim>\<open>str\<close> pattern use Unicode whitespace.\<close>

definition isspace :: "nat \<Rightarrow> bool" where
  "isspace c =
     ((0x09 \<le> c \<and> c \<le> 0x0D) \<or> (0x1C \<le> c \<and> c \<le> 0x20) \<or> c = 0x85 \<or> c = 0xA0
      \<or> c = 0x1680 \<or> (0x2000 \<le> c \<and> c \<le> 0x200A) \<or> c = 0x2028 \<or> c = 0x2029
      \<or> c = 0x202F \<or> c = 0x205F \<or> c = 0x3000)"

definition strip :: "str \<Rightarrow> str" where
  "strip s = rev (dropWhile isspace (rev (dropWhile isspace s)))"

subsection \<open>UTF-8\<close>

text \<open>
  \<^verbatim>\<open>bytes.decode("utf-8")\<close>, strict: \<open>need\<close> continuation bytes are still expected for
  the code point accumulated in \<open>acc\<close>, the next of them within \<open>lo..hi\<close> (which is how
  overlong forms, surrogates and values above U+10FFFF are refused).
\<close>

fun utf8_go :: "nat \<Rightarrow> nat \<Rightarrow> nat \<Rightarrow> nat \<Rightarrow> bytes \<Rightarrow> error + str" where
  "utf8_go need acc lo hi [] = (if need = 0 then Inr [] else Inl UnicodeDecodeError)"
| "utf8_go need acc lo hi (c # cs) =
     (let b = of_char c in
      if need = 0 then
        if b < 0x80 then
          (case utf8_go 0 0 0x80 0xBF cs of Inl e \<Rightarrow> Inl e | Inr r \<Rightarrow> Inr (b # r))
        else if 0xC2 \<le> b \<and> b \<le> 0xDF then utf8_go 1 (b - 0xC0) 0x80 0xBF cs
        else if b = 0xE0 then utf8_go 2 (b - 0xE0) 0xA0 0xBF cs
        else if b = 0xED then utf8_go 2 (b - 0xE0) 0x80 0x9F cs
        else if 0xE1 \<le> b \<and> b \<le> 0xEF then utf8_go 2 (b - 0xE0) 0x80 0xBF cs
        else if b = 0xF0 then utf8_go 3 (b - 0xF0) 0x90 0xBF cs
        else if b = 0xF4 then utf8_go 3 (b - 0xF0) 0x80 0x8F cs
        else if 0xF1 \<le> b \<and> b \<le> 0xF3 then utf8_go 3 (b - 0xF0) 0x80 0xBF cs
        else Inl UnicodeDecodeError
      else if lo \<le> b \<and> b \<le> hi then
        (let acc' = acc * 64 + (b - 0x80) in
         if need = 1 then
           (case utf8_go 0 0 0x80 0xBF cs of Inl e \<Rightarrow> Inl e | Inr r \<Rightarrow> Inr (acc' # r))
         else utf8_go (need - 1) acc' 0x80 0xBF cs)
      else Inl UnicodeDecodeError)"

definition decode_utf8 :: "bytes \<Rightarrow> error + str" where
  "decode_utf8 bs = utf8_go 0 0 0x80 0xBF bs"

text \<open>\<^verbatim>\<open>str.encode("utf-8")\<close>: a surrogate cannot be encoded.\<close>

definition encode_cp :: "nat \<Rightarrow> error + bytes" where
  "encode_cp c =
     (if c < 0x80 then Inr [char_of c]
      else if c < 0x800 then Inr [char_of (0xC0 + c div 64), char_of (0x80 + c mod 64)]
      else if 0xD800 \<le> c \<and> c \<le> 0xDFFF then Inl UnicodeEncodeError
      else if c < 0x10000 then
        Inr [char_of (0xE0 + c div 4096), char_of (0x80 + c div 64 mod 64),
             char_of (0x80 + c mod 64)]
      else if c < 0x110000 then
        Inr [char_of (0xF0 + c div 262144), char_of (0x80 + c div 4096 mod 64),
             char_of (0x80 + c div 64 mod 64), char_of (0x80 + c mod 64)]
      else Inl UnicodeEncodeError)"

fun encode_utf8 :: "str \<Rightarrow> error + bytes" where
  "encode_utf8 [] = Inr []"
| "encode_utf8 (c # cs) =
     (case encode_cp c of Inl e \<Rightarrow> Inl e
      | Inr x \<Rightarrow> (case encode_utf8 cs of Inl e \<Rightarrow> Inl e | Inr y \<Rightarrow> Inr (x @ y)))"

section \<open>\<^verbatim>\<open>get_header_opt\<close>\<close>

text \<open>
  The pattern is \<^verbatim>\<open>{key}=([^\s";]+)|{key}="([^"]+)"\<close>. The key is spliced into the
  pattern; the model reads it literally, which is what a regular expression does with a
  key of letters and digits, as at the three call sites (\<^verbatim>\<open>boundary\<close>, \<^verbatim>\<open>name\<close>,
  \<^verbatim>\<open>filename\<close>). \<open>regex_literal\<close> says that a key is of that kind.
\<close>

definition regex_literal :: "str \<Rightarrow> bool" where
  "regex_literal key =
     list_all (\<lambda>c. (0x30 \<le> c \<and> c \<le> 0x39) \<or> (0x41 \<le> c \<and> c \<le> 0x5A)
                  \<or> (0x61 \<le> c \<and> c \<le> 0x7A)) key"

text \<open>The class \<^verbatim>\<open>[^\s";]\<close>.\<close>

definition bare :: "nat \<Rightarrow> bool" where
  "bare c = (\<not> isspace c \<and> c \<noteq> 0x22 \<and> c \<noteq> 0x3B)"

text \<open>
  First alternative at the start of \<open>s\<close>: \<^verbatim>\<open>key=\<close>, then the longest non-empty run of
  the class (nothing follows the group, so the greedy match stands).
\<close>

definition match_unquoted :: "str \<Rightarrow> str \<Rightarrow> str option" where
  "match_unquoted key s =
     (if prefix (key @ [0x3D]) s then
        (let a = takeWhile bare (drop (length key + 1) s)
         in if a = [] then None else Some a)
      else None)"

text \<open>
  Second alternative at the start of \<open>s\<close>: \<^verbatim>\<open>key="\<close>, a non-empty run without a quote,
  and a closing quote (a shorter run would be followed by a character that is not a
  quote, so backtracking finds nothing else).
\<close>

definition match_quoted :: "str \<Rightarrow> str \<Rightarrow> str option" where
  "match_quoted key s =
     (if prefix (key @ [0x3D, 0x22]) s then
        (let t = drop (length key + 2) s;
             b = takeWhile (\<lambda>c. c \<noteq> 0x22) t
         in if b = [] \<or> dropWhile (\<lambda>c. c \<noteq> 0x22) t = [] then None else Some b)
      else None)"

text \<open>The pair \<^verbatim>\<open>m.groups()\<close> of a match at the start of \<open>s\<close>; alternatives in order.\<close>

definition match_at :: "str \<Rightarrow> str \<Rightarrow> (str option \<times> str option) option" where
  "match_at key s =
     (case match_unquoted key s of
        Some a \<Rightarrow> Some (Some a, None)
      | None \<Rightarrow> (case match_quoted key s of
                   Some b \<Rightarrow> Some (None, Some b)
                 | None \<Rightarrow> None))"

text \<open>\<^verbatim>\<open>p.search(header)\<close>: the match at the leftmost position that has one.\<close>

fun re_search :: "str \<Rightarrow> str \<Rightarrow> (str option \<times> str option) option" where
  "re_search key [] = match_at key []"
| "re_search key (c # cs) =
     (case match_at key (c # cs) of
        Some g \<Rightarrow> Some g
      | None \<Rightarrow> re_search key cs)"

definition get_header_opt :: "str \<Rightarrow> str \<Rightarrow> error + str" where
  "get_header_opt key header =
     (case re_search key header of
        None \<Rightarrow> Inr []
      | Some (a, b) \<Rightarrow>
          (let b_strip = (case b of None \<Rightarrow> Inl AttributeError | Some b' \<Rightarrow> Inr (strip b'))
           in case a of
                None \<Rightarrow> b_strip
              | Some a' \<Rightarrow> if a' = [] then b_strip else Inr a'))"

section \<open>\<^verbatim>\<open>parse_multipart\<close>\<close>

text \<open>
  The two delimiter lines, \<^verbatim>\<open>f"--{boundary}\r\n".encode("utf-8")\<close> and
  \<^verbatim>\<open>f"--{boundary}--\r\n".encode("utf-8")\<close>.
\<close>

definition delimiters :: "str \<Rightarrow> error + (bytes \<times> bytes)" where
  "delimiters boundary =
     (case encode_utf8 (lit ''--'' @ boundary @ lit CRLF) of
        Inl e \<Rightarrow> Inl e
      | Inr separator \<Rightarrow>
          (case encode_utf8 (lit ''--'' @ boundary @ lit (''--'' @ CRLF)) of
             Inl e \<Rightarrow> Inl e
           | Inr terminator \<Rightarrow> Inr (separator, terminator)))"

text \<open>
  Each \<^verbatim>\<open>while True\<close> loop is a recursive function on the unread stream. None of them
  tests for the end of the stream, where \<^verbatim>\<open>readline\<close> keeps returning the empty bytes
  object, so they are partial: \<open>None\<close> is a loop that never exits.
\<close>

text \<open>"Look for the first file": the stream after the first separator line.\<close>

partial_function (option) seek_first :: "bytes \<Rightarrow> bytes \<Rightarrow> bytes option" where
  "seek_first separator s =
     (case readline s of (line, r) \<Rightarrow>
        if line = separator then Some r else seek_first separator r)"

declare seek_first.simps [code]

text \<open>"Read until end of headers": the stream after the first blank line.\<close>

partial_function (option) skip_headers :: "bytes \<Rightarrow> bytes option" where
  "skip_headers s =
     (case readline s of (line, r) \<Rightarrow>
        if line = CRLF then Some r else skip_headers r)"

declare skip_headers.simps [code]

text \<open>
  "Read file content into buffer": the buffer, the delimiter line that ended the loop,
  and the stream after it.
\<close>

partial_function (option) read_body ::
  "bytes \<Rightarrow> bytes \<Rightarrow> buffer \<Rightarrow> bytes \<Rightarrow> (buffer \<times> bytes \<times> bytes) option" where
  "read_body separator terminator b s =
     (case readline s of (line, r) \<Rightarrow>
        if line = separator \<or> line = terminator then Some (b, line, r)
        else read_body separator terminator (buf_write b line) r)"

declare read_body.simps [code]

text \<open>
  "Remove trailing CRLF from HTTP": \<^verbatim>\<open>buf.seek(-2, 2); buf.truncate()\<close>.
\<close>

definition seal :: "buffer \<Rightarrow> error + buffer" where
  "seal b = (case buf_seek_end b (- 2) of Inl e \<Rightarrow> Inl e | Inr b' \<Rightarrow> Inr (buf_truncate b'))"

text \<open>
  "Read multipart data", the outer loop, with \<open>acc\<close> the list \<^verbatim>\<open>multipart_form_data\<close>.
  The dict appended to the list holds the buffer object itself, so the truncation made
  after the \<^verbatim>\<open>append\<close> shows in the list that is returned: the last part carries the
  sealed buffer.
\<close>

partial_function (option) parts_loop ::
  "bytes \<Rightarrow> bytes \<Rightarrow> part list \<Rightarrow> bytes \<Rightarrow> (error + part list) option" where
  "parts_loop separator terminator acc s =
     (case readline s of (line, r) \<Rightarrow>
        if \<not> prefix ''Content-Disposition:'' line then parts_loop separator terminator acc r
        else
          (case decode_utf8 (rstrip line) of
             Inl e \<Rightarrow> Some (Inl e)
           | Inr header \<Rightarrow>
               (case get_header_opt (lit ''name'') header of
                  Inl e \<Rightarrow> Some (Inl e)
                | Inr form_name' \<Rightarrow>
                    (case get_header_opt (lit ''filename'') header of
                       Inl e \<Rightarrow> Some (Inl e)
                     | Inr filename' \<Rightarrow>
                         (case skip_headers r of
                            None \<Rightarrow> None
                          | Some r1 \<Rightarrow>
                              (case read_body separator terminator TemporaryFile r1 of
                                 None \<Rightarrow> None
                               | Some (b, line', r2) \<Rightarrow>
                                   if line' = terminator then
                                     (case seal b of
                                        Inl e \<Rightarrow> Some (Inl e)
                                      | Inr b' \<Rightarrow>
                                          Some (Inr (acc @ [\<lparr>form_name = form_name',
                                                filename = filename', buf = b'\<rparr>])))
                                   else
                                     parts_loop separator terminator
                                       (acc @ [\<lparr>form_name = form_name',
                                                filename = filename', buf = b\<rparr>]) r2))))))"

declare parts_loop.simps [code]

text \<open>
  The request headers are a lookup from header name to value. The result is \<open>None\<close> when
  the call does not return, \<open>Some (Inl e)\<close> when it raises \<open>e\<close>, and \<open>Some (Inr parts)\<close>
  when it returns \<open>parts\<close>.
\<close>

definition parse_multipart ::
  "(string \<rightharpoonup> str) \<Rightarrow> bytes \<Rightarrow> (error + part list) option" where
  "parse_multipart req_headers req_body =
     (case req_headers ''Content-Type'' of
        None \<Rightarrow> Some (Inl HeaderLookupError)
      | Some content_type \<Rightarrow>
          (case get_header_opt (lit ''boundary'') content_type of
             Inl e \<Rightarrow> Some (Inl e)
           | Inr boundary \<Rightarrow>
               (case delimiters boundary of
                  Inl e \<Rightarrow> Some (Inl e)
                | Inr (separator, terminator) \<Rightarrow>
                    (case seek_first separator req_body of
                       None \<Rightarrow> None
                     | Some s \<Rightarrow> parts_loop separator terminator [] s))))"

section \<open>Vocabulary of the properties\<close>

text \<open>
  What the \<^verbatim>\<open>Content-Type\<close> header makes of the two delimiters: the first three steps of
  \<open>parse_multipart\<close>, collected.
\<close>

definition request_delimiters :: "(string \<rightharpoonup> str) \<Rightarrow> error + (bytes \<times> bytes)" where
  "request_delimiters req_headers =
     (case req_headers ''Content-Type'' of
        None \<Rightarrow> Inl HeaderLookupError
      | Some content_type \<Rightarrow>
          (case get_header_opt (lit ''boundary'') content_type of
             Inl e \<Rightarrow> Inl e
           | Inr boundary \<Rightarrow> delimiters boundary))"

text \<open>A line as \<^verbatim>\<open>readline\<close> returns it before the end of the stream: it ends at its only LF.\<close>

definition proper_line :: "bytes \<Rightarrow> bool" where
  "proper_line l = (l \<noteq> [] \<and> last l = LF \<and> LF \<notin> set (butlast l))"

text \<open>The lines of a whole stream: what successive calls of \<^verbatim>\<open>readline\<close> return until it is empty.\<close>

function readlines :: "bytes \<Rightarrow> bytes list" where
  "readlines s = (if s = [] then [] else fst (readline s) # readlines (snd (readline s)))"
  by pat_completeness auto
termination
proof (relation "measure length")
  show "wf (measure length)" by simp
next
  fix s :: bytes
  assume "s \<noteq> []"
  have le: "length (snd (readline t)) \<le> length t" for t
    by (induction t) (auto split: prod.splits)
  have "length (snd (readline s)) < length s"
  proof (cases s)
    case Nil
    with \<open>s \<noteq> []\<close> show ?thesis by simp
  next
    case (Cons c cs)
    with le [of cs] show ?thesis by (auto split: prod.splits)
  qed
  then show "(snd (readline s), s) \<in> measure length" by simp
qed

declare readlines.simps [simp del]

text \<open>A buffer to which \<open>x\<close> has been written from the start.\<close>

definition filled :: "bytes \<Rightarrow> buffer" where
  "filled x = \<lparr>data = x, pos = length x\<rparr>"

text \<open>
  A \<^verbatim>\<open>Content-Disposition\<close> header line that the decoder can read: one line, with the
  marker at its start, and valid UTF-8.
\<close>

definition is_disposition_line :: "bytes \<Rightarrow> bool" where
  "is_disposition_line h =
     (proper_line h \<and> prefix ''Content-Disposition:'' h \<and> \<not> isl (decode_utf8 (rstrip h)))"

text \<open>A further header line of a part: one line, not blank, not a second disposition.\<close>

definition is_extra_header :: "bytes \<Rightarrow> bool" where
  "is_extra_header x =
     (proper_line x \<and> x \<noteq> CRLF \<and> \<not> prefix ''Content-Disposition:'' x)"

text \<open>The value the decoder extracts for \<open>key\<close> from a disposition line.\<close>

definition opt_value :: "str \<Rightarrow> bytes \<Rightarrow> str" where
  "opt_value key h =
     (case decode_utf8 (rstrip h) of
        Inl e \<Rightarrow> []
      | Inr header \<Rightarrow> (case get_header_opt key header of Inl e \<Rightarrow> [] | Inr v \<Rightarrow> v))"

text \<open>The part read from disposition line \<open>h\<close> when \<open>x\<close> is what its buffer holds.\<close>

definition part_of :: "bytes \<Rightarrow> bytes \<Rightarrow> part" where
  "part_of h x =
     \<lparr>form_name = opt_value (lit ''name'') h, filename = opt_value (lit ''filename'') h,
      buf = filled x\<rparr>"

text \<open>
  One part on the wire, as a browser writes it: the disposition line, further header
  lines, a blank line, the content, and the CRLF that precedes the delimiter line.
\<close>

record form_part =
  disposition :: bytes
  headers :: "bytes list"
  content :: bytes

definition encode_part :: "form_part \<Rightarrow> bytes" where
  "encode_part p = disposition p @ concat (headers p) @ CRLF @ content p @ CRLF"

text \<open>The parts of a body, each followed by its delimiter line: the terminator after the last.\<close>

fun encode_parts :: "bytes \<Rightarrow> bytes \<Rightarrow> form_part list \<Rightarrow> bytes" where
  "encode_parts separator terminator [] = []"
| "encode_parts separator terminator [p] = encode_part p @ terminator"
| "encode_parts separator terminator (p # q # ps) =
     encode_part p @ separator @ encode_parts separator terminator (q # ps)"

text \<open>
  A part is well formed for the two delimiters when its header lines are as above and no
  line of its content, CRLF included, is one of the delimiter lines.
\<close>

definition wf_part :: "bytes \<Rightarrow> bytes \<Rightarrow> form_part \<Rightarrow> bool" where
  "wf_part separator terminator p =
     (is_disposition_line (disposition p) \<and> list_all is_extra_header (headers p)
      \<and> separator \<notin> set (readlines (content p @ CRLF))
      \<and> terminator \<notin> set (readlines (content p @ CRLF)))"

text \<open>
  What the decoder returns for the parts of a well-formed body: the buffer of the last
  part holds its content, the buffer of every earlier part its content and the CRLF
  after it.
\<close>

fun decoded_parts :: "form_part list \<Rightarrow> part list" where
  "decoded_parts [] = []"
| "decoded_parts [p] = [part_of (disposition p) (content p)]"
| "decoded_parts (p # q # ps) = part_of (disposition p) (content p @ CRLF) # decoded_parts (q # ps)"

text \<open>What holds when the body loop has returned \<open>y\<close>, started on buffer \<open>b\<close> and stream \<open>s\<close>.\<close>

definition body_post :: "bytes \<Rightarrow> bytes \<Rightarrow> buffer \<Rightarrow> bytes \<Rightarrow> buffer \<times> bytes \<times> bytes \<Rightarrow> bool" where
  "body_post sep trm b s y =
     (case y of (b', l, r) \<Rightarrow>
        (l = sep \<or> l = trm) \<and> (l \<noteq> [] \<longrightarrow> l \<in> set (readlines s))
        \<and> set (readlines r) \<subseteq> set (readlines s)
        \<and> (pos b = length (data b) \<longrightarrow> pos b' = length (data b')))"

text \<open>The cursor of a part's buffer is at the end of what the buffer holds.\<close>

definition at_end :: "part \<Rightarrow> bool" where
  "at_end p = (pos (buf p) = length (data (buf p)))"

text \<open>What holds when the outer loop has finished with \<open>y\<close>, started on \<open>acc\<close> and \<open>s\<close>.\<close>

definition loop_post :: "bytes \<Rightarrow> bytes \<Rightarrow> part list \<Rightarrow> bytes \<Rightarrow> error + part list \<Rightarrow> bool" where
  "loop_post sep trm acc s y =
     ((trm \<noteq> [] \<and> trm \<notin> set (readlines s) \<longrightarrow> y = Inl UnicodeDecodeError)
      \<and> (y = Inl UnicodeDecodeError \<longrightarrow>
           (\<exists>l\<in>set (readlines s). prefix ''Content-Disposition:'' l \<and> isl (decode_utf8 (rstrip l))))
      \<and> (list_all at_end acc \<longrightarrow> (case y of Inl e \<Rightarrow> True | Inr ps \<Rightarrow> list_all at_end ps)))"

text \<open>Bytes below 0x80, which UTF-8 reads and writes as they are.\<close>

definition ascii :: "bytes \<Rightarrow> bool" where
  "ascii s = list_all (\<lambda>c. of_char c < (0x80::nat)) s"

text \<open>Two files sent under the same field name.\<close>

definition file_a :: form_part where
  \<open>file_a = \<lparr>disposition = ''Content-Disposition: form-data; name="files"; filename="a.bin"'' @ CRLF,
     headers = [''Content-Type: application/octet-stream'' @ CRLF], content = ''one''\<rparr>\<close>

definition file_b :: form_part where
  \<open>file_b = \<lparr>disposition = ''Content-Disposition: form-data; name="files"; filename="b.bin"'' @ CRLF,
     headers = [''Content-Type: application/octet-stream'' @ CRLF], content = ''two''\<rparr>\<close>

text \<open>
  What follows \<^verbatim>\<open>key=\<close> is an empty value: the end of the line, whitespace, a semicolon, or
  an empty pair of quotes.
\<close>

fun value_is_empty :: "str \<Rightarrow> bool" where
  "value_is_empty [] = True"
| "value_is_empty [c] = (isspace c \<or> c = 0x3B)"
| "value_is_empty (c # d # cs) = (isspace c \<or> c = 0x3B \<or> (c = 0x22 \<and> d = 0x22))"

text \<open>
  A header line gives no value for \<open>key\<close>: wherever the text \<^verbatim>\<open>key=\<close> stands in it, an
  empty value follows. In particular the text may not occur at all.
\<close>

fun no_value_for :: "str \<Rightarrow> str \<Rightarrow> bool" where
  "no_value_for key [] = True"
| "no_value_for key (c # cs) =
     ((if prefix (key @ [0x3D]) (c # cs) then value_is_empty (drop (length key + 1) (c # cs))
       else True)
      \<and> no_value_for key cs)"

text \<open>The text field of the specification's first scenario.\<close>

definition text_hello :: form_part where
  \<open>text_hello = \<lparr>disposition = ''Content-Disposition: form-data; name="text"'' @ CRLF,
     headers = [], content = ''hello''\<rparr>\<close>

section \<open>Auxiliary facts\<close>

subsection \<open>Lines\<close>

lemma readline_append: "readline s = (l, r) \<Longrightarrow> s = l @ r"
  by (induction s arbitrary: l r) (auto split: if_splits prod.splits)

lemma readline_empty: "readline s = ([], r) \<Longrightarrow> s = [] \<and> r = []"
  by (cases s) (auto split: if_splits prod.splits)

lemma readline_proper: "proper_line l \<Longrightarrow> readline (l @ s) = (l, s)"
proof (induction l)
  case Nil
  then show ?case by (simp add: proper_line_def)
next
  case (Cons c l)
  show ?case
  proof (cases "l = []")
    case True
    with Cons.prems show ?thesis by (simp add: proper_line_def)
  next
    case False
    with Cons.prems have "proper_line l" and "c \<noteq> LF"
      by (auto simp: proper_line_def)
    with Cons.IH show ?thesis by simp
  qed
qed

lemma readlines_Nil: "readlines [] = []"
  by (simp add: readlines.simps)

lemma readlines_step: "s \<noteq> [] \<Longrightarrow> readline s = (l, r) \<Longrightarrow> readlines s = l # readlines r"
  by (subst readlines.simps) simp

lemma readlines_proper: "proper_line l \<Longrightarrow> readlines (l @ s) = l # readlines s"
  using readlines_step [of "l @ s" l s] by (simp add: readline_proper proper_line_def)

lemma readline_fst_proper:
  "s \<noteq> [] \<Longrightarrow> last s = LF \<Longrightarrow> readline s = (l, r) \<Longrightarrow> proper_line l \<and> (r = [] \<or> last r = LF)"
proof (induction s arbitrary: l r)
  case Nil
  then show ?case by simp
next
  case (Cons c s)
  show ?case
  proof (cases "c = LF")
    case True
    with Cons.prems show ?thesis by (auto simp: proper_line_def split: if_splits)
  next
    case False
    with Cons.prems have ne: "s \<noteq> []" and la: "last s = LF"
      by (auto split: if_splits)
    obtain l' r' where lr: "readline s = (l', r')" by (cases "readline s")
    from Cons.IH [OF ne la lr] have "proper_line l'" and "r' = [] \<or> last r' = LF" by simp_all
    moreover from Cons.prems(3) False lr have "l = c # l'" and "r = r'" by simp_all
    ultimately show ?thesis using False by (auto simp: proper_line_def)
  qed
qed

lemma readlines_complete:
  "s = [] \<or> last s = LF \<Longrightarrow> list_all proper_line (readlines s) \<and> concat (readlines s) = s"
proof (induction s rule: readlines.induct)
  case (1 s)
  show ?case
  proof (cases "s = []")
    case True
    then show ?thesis by (simp add: readlines_Nil)
  next
    case False
    obtain l r where lr: "readline s = (l, r)" by (cases "readline s")
    from False "1.prems" have la: "last s = LF" by simp
    from readline_fst_proper [OF False la lr] have pl: "proper_line l" and r: "r = [] \<or> last r = LF"
      by simp_all
    from "1.IH" [OF False] lr r have "list_all proper_line (readlines r) \<and> concat (readlines r) = r"
      by simp
    with pl readlines_step [OF False lr] readline_append [OF lr] show ?thesis by simp
  qed
qed

subsection \<open>The buffer\<close>

lemma TemporaryFile_filled: "TemporaryFile = filled []"
  by (simp add: TemporaryFile_def filled_def)

lemma buf_write_filled: "buf_write (filled x) l = filled (x @ l)"
  by (simp add: buf_write_def filled_def)

lemma seal_filled:
  "seal (filled x) = (if length x < 2 then Inl OSError else Inr (filled (take (length x - 2) x)))"
  by (auto simp: seal_def buf_seek_end_def buf_truncate_def filled_def Let_def nat_diff_distrib)

subsection \<open>The extractor never raises\<close>

lemma match_at_cases:
  "match_at key s = Some (a, b) \<Longrightarrow>
     (\<exists>x. a = Some x \<and> x \<noteq> [] \<and> b = None) \<or> (\<exists>y. a = None \<and> b = Some y)"
proof (cases "match_unquoted key s")
  case None
  assume "match_at key s = Some (a, b)"
  with None obtain y where "match_quoted key s = Some y" and "a = None" and "b = Some y"
    by (cases "match_quoted key s") (simp_all add: match_at_def)
  then show ?thesis by simp
next
  case (Some x)
  assume "match_at key s = Some (a, b)"
  with Some show ?thesis
    by (auto simp: match_at_def match_unquoted_def Let_def split: if_splits)
qed

lemma re_search_cases:
  "re_search key s = Some (a, b) \<Longrightarrow>
     (\<exists>x. a = Some x \<and> x \<noteq> [] \<and> b = None) \<or> (\<exists>y. a = None \<and> b = Some y)"
proof (induction s)
  case Nil
  then show ?case using match_at_cases by simp
next
  case (Cons c s)
  then show ?case using match_at_cases [of key "c # s" a b] by (auto split: option.splits)
qed

lemma get_header_opt_total: "\<exists>v. get_header_opt key header = Inr v"
proof (cases "re_search key header")
  case None
  then show ?thesis by (simp add: get_header_opt_def)
next
  case (Some g)
  obtain a b where g: "g = (a, b)" by (cases g)
  with Some re_search_cases [of key header a b] show ?thesis
    by (auto simp: get_header_opt_def)
qed

lemma get_header_opt_opt_value:
  "decode_utf8 (rstrip h) = Inr header \<Longrightarrow> get_header_opt key header = Inr (opt_value key h)"
  using get_header_opt_total [of key header] by (auto simp: opt_value_def)

subsection \<open>The loops on well-formed input\<close>

lemma seek_first_hit: "proper_line sep \<Longrightarrow> seek_first sep (sep @ s) = Some s"
  by (subst seek_first.simps) (simp add: readline_proper)

lemma skip_headers_blank: "skip_headers (CRLF @ s) = Some s"
  by (subst skip_headers.simps) simp

lemma skip_headers_extra:
  "list_all is_extra_header hs \<Longrightarrow> skip_headers (concat hs @ CRLF @ s) = Some s"
proof (induction hs)
  case Nil
  then show ?case using skip_headers_blank by simp
next
  case (Cons x hs)
  then have "is_extra_header x" and hs: "list_all is_extra_header hs"
    by simp_all
  then have x: "proper_line x" "x \<noteq> CRLF"
    by (simp_all add: is_extra_header_def)
  have "skip_headers (x @ concat hs @ CRLF @ s) = skip_headers (concat hs @ CRLF @ s)"
    using x by (subst skip_headers.simps) (simp add: readline_proper)
  with Cons.IH [OF hs] show ?case by simp
qed

lemma read_body_lines:
  assumes "\<forall>l\<in>set ls. proper_line l \<and> l \<noteq> sep \<and> l \<noteq> trm"
    and "proper_line d" and "d = sep \<or> d = trm"
  shows "read_body sep trm (filled x) (concat ls @ d @ rest) = Some (filled (x @ concat ls), d, rest)"
  using assms(1)
proof (induction ls arbitrary: x)
  case Nil
  from assms(2,3) show ?case
    by (subst read_body.simps) (auto simp: readline_proper)
next
  case (Cons l ls)
  then have l: "proper_line l" "l \<noteq> sep" "l \<noteq> trm"
    and ls: "\<forall>l\<in>set ls. proper_line l \<and> l \<noteq> sep \<and> l \<noteq> trm"
    by simp_all
  have "read_body sep trm (filled x) (l @ concat ls @ d @ rest)
        = read_body sep trm (filled (x @ l)) (concat ls @ d @ rest)"
    using l by (subst read_body.simps) (simp add: readline_proper buf_write_filled)
  with Cons.IH [OF ls, of "x @ l"] show ?case by simp
qed

subsection \<open>The delimiters\<close>

lemma encode_utf8_append:
  "encode_utf8 (x @ y) =
     (case encode_utf8 x of Inl e \<Rightarrow> Inl e
      | Inr x' \<Rightarrow> (case encode_utf8 y of Inl e \<Rightarrow> Inl e | Inr y' \<Rightarrow> Inr (x' @ y')))"
  by (induction x) (auto split: sum.splits)

lemma encode_utf8_ascii:
  "list_all (\<lambda>c. of_char c < (0x80::nat)) s \<Longrightarrow> encode_utf8 (lit s) = Inr s"
  by (induction s) (simp_all add: lit_def encode_cp_def)

lemma encode_utf8_dashes: "encode_utf8 (lit ''--'') = Inr ''--''"
  by (rule encode_utf8_ascii) simp

lemma encode_utf8_CRLF: "encode_utf8 (lit CRLF) = Inr CRLF"
  by (rule encode_utf8_ascii) simp

lemma encode_utf8_dashes_CRLF: "encode_utf8 (lit (''--'' @ CRLF)) = Inr (''--'' @ CRLF)"
  by (rule encode_utf8_ascii) simp

lemma delimiters_shape:
  "delimiters boundary = Inr (sep, trm) \<Longrightarrow>
     \<exists>e. encode_utf8 boundary = Inr e \<and> sep = ''--'' @ e @ CRLF \<and> trm = ''--'' @ e @ ''--'' @ CRLF"
  unfolding delimiters_def encode_utf8_append encode_utf8_dashes encode_utf8_CRLF
    encode_utf8_dashes_CRLF
  by (auto split: sum.splits)

lemma delimiters_distinct: "delimiters boundary = Inr (sep, trm) \<Longrightarrow> sep \<noteq> trm"
  by (auto dest!: delimiters_shape)

lemma delimiters_nonempty: "delimiters boundary = Inr (sep, trm) \<Longrightarrow> sep \<noteq> [] \<and> trm \<noteq> []"
  by (auto dest!: delimiters_shape)

lemma delimiters_proper:
  assumes "delimiters boundary = Inr (sep, trm)" and "proper_line sep"
  shows "proper_line trm"
proof -
  from assms(1) obtain e where sep: "sep = ''--'' @ e @ CRLF" and trm: "trm = ''--'' @ e @ ''--'' @ CRLF"
    by (auto dest!: delimiters_shape)
  from assms(2) sep have "LF \<notin> set e"
    by (simp add: proper_line_def butlast_append)
  with trm show ?thesis
    by (simp add: proper_line_def butlast_append)
qed

lemma parse_multipart_unfold:
  "parse_multipart req_headers req_body =
     (case request_delimiters req_headers of
        Inl e \<Rightarrow> Some (Inl e)
      | Inr (sep, trm) \<Rightarrow>
          (case seek_first sep req_body of
             None \<Rightarrow> None
           | Some s \<Rightarrow> parts_loop sep trm [] s))"
  by (simp add: parse_multipart_def request_delimiters_def split: option.splits sum.splits)

lemma request_delimiters_facts:
  assumes "request_delimiters req_headers = Inr (sep, trm)"
  shows "sep \<noteq> trm" and "sep \<noteq> []" and "trm \<noteq> []" and "proper_line sep \<Longrightarrow> proper_line trm"
proof -
  from assms obtain b where b: "delimiters b = Inr (sep, trm)"
    by (auto simp: request_delimiters_def split: option.splits sum.splits)
  show "sep \<noteq> trm" using b by (rule delimiters_distinct)
  show "sep \<noteq> []" "trm \<noteq> []" using delimiters_nonempty [OF b] by simp_all
  show "proper_line sep \<Longrightarrow> proper_line trm" using b by (rule delimiters_proper)
qed

subsection \<open>One part\<close>

lemma parts_loop_part:
  assumes h: "is_disposition_line h" and hs: "list_all is_extra_header hs"
    and ls: "\<forall>l\<in>set ls. proper_line l \<and> l \<noteq> sep \<and> l \<noteq> trm"
    and d: "proper_line d" "d = sep \<or> d = trm"
  shows "parts_loop sep trm acc (h @ concat hs @ CRLF @ concat ls @ d @ rest) =
     (if d = trm then
        (if length (concat ls) < 2 then Some (Inl OSError)
         else Some (Inr (acc @ [part_of h (take (length (concat ls) - 2) (concat ls))])))
      else parts_loop sep trm (acc @ [part_of h (concat ls)]) rest)"
proof -
  define s2 where "s2 = concat ls @ d @ rest"
  define s1 where "s1 = concat hs @ CRLF @ s2"
  from h have ph: "proper_line h" and cd: "prefix ''Content-Disposition:'' h"
    by (simp_all add: is_disposition_line_def)
  from h obtain header where dec: "decode_utf8 (rstrip h) = Inr header"
    by (cases "decode_utf8 (rstrip h)") (simp_all add: is_disposition_line_def)
  have rl: "readline (h @ s1) = (h, s1)"
    using ph by (rule readline_proper)
  have sk: "skip_headers s1 = Some s2"
    unfolding s1_def using hs by (rule skip_headers_extra)
  have rb: "read_body sep trm TemporaryFile s2 = Some (filled (concat ls), d, rest)"
    unfolding s2_def using read_body_lines [OF ls d, of "[]" rest] by (simp add: TemporaryFile_filled)
  have "parts_loop sep trm acc (h @ s1) =
     (if d = trm then
        (if length (concat ls) < 2 then Some (Inl OSError)
         else Some (Inr (acc @ [part_of h (take (length (concat ls) - 2) (concat ls))])))
      else parts_loop sep trm (acc @ [part_of h (concat ls)]) rest)"
    by (subst parts_loop.simps)
      (simp add: rl cd dec get_header_opt_opt_value [OF dec] sk rb seal_filled part_of_def)
  then show ?thesis by (simp add: s1_def s2_def)
qed

lemma content_lines:
  assumes "sep \<notin> set (readlines (c @ CRLF))" and "trm \<notin> set (readlines (c @ CRLF))"
  shows "\<forall>l\<in>set (readlines (c @ CRLF)). proper_line l \<and> l \<noteq> sep \<and> l \<noteq> trm"
    and "concat (readlines (c @ CRLF)) = c @ CRLF"
proof -
  have "list_all proper_line (readlines (c @ CRLF)) \<and> concat (readlines (c @ CRLF)) = c @ CRLF"
    by (rule readlines_complete) simp
  then show "concat (readlines (c @ CRLF)) = c @ CRLF"
    and "\<forall>l\<in>set (readlines (c @ CRLF)). proper_line l \<and> l \<noteq> sep \<and> l \<noteq> trm"
    using assms by (auto simp: list_all_iff)
qed

lemma parts_loop_encode_part:
  assumes wf: "wf_part sep trm p" and d: "proper_line d" "d = sep \<or> d = trm"
  shows "parts_loop sep trm acc (encode_part p @ d @ rest) =
     (if d = trm then Some (Inr (acc @ [part_of (disposition p) (content p)]))
      else parts_loop sep trm (acc @ [part_of (disposition p) (content p @ CRLF)]) rest)"
proof -
  let ?ls = "readlines (content p @ CRLF)"
  from wf have h: "is_disposition_line (disposition p)" and hs: "list_all is_extra_header (headers p)"
    and no: "sep \<notin> set ?ls" "trm \<notin> set ?ls"
    by (simp_all add: wf_part_def)
  note ls = content_lines [OF no]
  have "encode_part p @ d @ rest
        = disposition p @ concat (headers p) @ CRLF @ concat ?ls @ d @ rest"
    by (simp add: encode_part_def ls(2))
  then show ?thesis
    using parts_loop_part [OF h hs ls(1) d, of acc rest] by (simp add: ls(2))
qed

lemma parts_loop_encode_parts:
  assumes "list_all (wf_part sep trm) ps" and "ps \<noteq> []"
    and "proper_line sep" and "proper_line trm" and "sep \<noteq> trm"
  shows "parts_loop sep trm acc (encode_parts sep trm ps @ rest) = Some (Inr (acc @ decoded_parts ps))"
  using assms(1,2)
proof (induction ps arbitrary: acc rule: decoded_parts.induct)
  case 1
  then show ?case by simp
next
  case (2 p)
  then have "wf_part sep trm p" by simp
  from parts_loop_encode_part [OF this assms(4), of acc rest] show ?case by simp
next
  case (3 p q ps)
  then have p: "wf_part sep trm p" and rest: "list_all (wf_part sep trm) (q # ps)" by simp_all
  from parts_loop_encode_part [OF p assms(3), of acc "encode_parts sep trm (q # ps) @ rest"] assms(5)
  have "parts_loop sep trm acc (encode_parts sep trm (p # q # ps) @ rest)
        = parts_loop sep trm (acc @ [part_of (disposition p) (content p @ CRLF)])
            (encode_parts sep trm (q # ps) @ rest)"
    by simp
  with "3.IH" [OF rest, of "acc @ [part_of (disposition p) (content p @ CRLF)]"] show ?case by simp
qed

lemma parse_multipart_encoded:
  assumes rd: "request_delimiters req_headers = Inr (sep, trm)" and sep: "proper_line sep"
    and wf: "list_all (wf_part sep trm) ps" and ne: "ps \<noteq> []"
  shows "parse_multipart req_headers (sep @ encode_parts sep trm ps @ rest) = Some (Inr (decoded_parts ps))"
proof -
  note f = request_delimiters_facts [OF rd]
  from parts_loop_encode_parts [OF wf ne sep f(4) [OF sep] f(1), of "[]" rest]
  show ?thesis
    by (simp add: parse_multipart_unfold rd seek_first_hit [OF sep])
qed

subsection \<open>What a loop that returns has read\<close>

lemma readline_lines:
  assumes "readline s = (l, r)"
  shows "set (readlines r) \<subseteq> set (readlines s)" and "l \<noteq> [] \<Longrightarrow> l \<in> set (readlines s)"
proof -
  show "set (readlines r) \<subseteq> set (readlines s)"
  proof (cases "s = []")
    case True
    with assms show ?thesis by simp
  next
    case False
    from readlines_step [OF False assms] show ?thesis by auto
  qed
  show "l \<in> set (readlines s)" if "l \<noteq> []"
  proof (cases "s = []")
    case True
    with assms that show ?thesis by simp
  next
    case False
    from readlines_step [OF False assms] show ?thesis by simp
  qed
qed

lemma seek_first_lines:
  assumes "seek_first sep s = Some r"
  shows "set (readlines r) \<subseteq> set (readlines s)"
proof (rule seek_first.raw_induct
    [where P = "\<lambda>sep s r. set (readlines r) \<subseteq> set (readlines s)", OF _ assms])
  fix f sep s r
  assume IH: "\<And>sep s r. f sep s = Some r \<Longrightarrow> set (readlines r) \<subseteq> set (readlines s)"
    and step: "(case readline s of (line, r') \<Rightarrow> if line = sep then Some r' else f sep r') = Some r"
  obtain l r' where lr: "readline s = (l, r')" by (cases "readline s")
  note sub = readline_lines(1) [OF lr]
  show "set (readlines r) \<subseteq> set (readlines s)"
  proof (cases "l = sep")
    case True
    with step lr sub show ?thesis by simp
  next
    case False
    with step lr have "f sep r' = Some r" by simp
    from IH [OF this] sub show ?thesis by blast
  qed
qed

lemma skip_headers_lines:
  assumes "skip_headers s = Some r"
  shows "set (readlines r) \<subseteq> set (readlines s)"
proof (rule skip_headers.raw_induct
    [where P = "\<lambda>s r. set (readlines r) \<subseteq> set (readlines s)", OF _ assms])
  fix f s r
  assume IH: "\<And>s r. f s = Some r \<Longrightarrow> set (readlines r) \<subseteq> set (readlines s)"
    and step: "(case readline s of (line, r') \<Rightarrow> if line = CRLF then Some r' else f r') = Some r"
  obtain l r' where lr: "readline s = (l, r')" by (cases "readline s")
  note sub = readline_lines(1) [OF lr]
  show "set (readlines r) \<subseteq> set (readlines s)"
  proof (cases "l = CRLF")
    case True
    with step lr sub show ?thesis by simp
  next
    case False
    with step lr have "f r' = Some r" by simp
    from IH [OF this] sub show ?thesis by blast
  qed
qed

lemma buf_write_at_end:
  "pos b = length (data b) \<Longrightarrow> pos (buf_write b l) = length (data (buf_write b l))"
  by (simp add: buf_write_def)

lemma read_body_post:
  assumes "read_body sep trm b s = Some y"
  shows "body_post sep trm b s y"
proof (rule read_body.raw_induct [where P = body_post, OF _ assms])
  fix f sep trm b s y
  assume IH: "\<And>sep trm b s y. f sep trm b s = Some y \<Longrightarrow> body_post sep trm b s y"
    and step: "(case readline s of (line, r) \<Rightarrow>
                  if line = sep \<or> line = trm then Some (b, line, r)
                  else f sep trm (buf_write b line) r) = Some y"
  obtain l r' where lr: "readline s = (l, r')" by (cases "readline s")
  note sub = readline_lines [OF lr]
  show "body_post sep trm b s y"
  proof (cases "l = sep \<or> l = trm")
    case True
    with step lr have "y = (b, l, r')" by auto
    with True sub show ?thesis by (auto simp: body_post_def)
  next
    case False
    with step lr have "f sep trm (buf_write b l) r' = Some y" by simp
    from IH [OF this] sub buf_write_at_end [of b l] show ?thesis
      by (auto simp: body_post_def)
  qed
qed

lemma utf8_go_error: "utf8_go n a lo hi bs = Inl e \<Longrightarrow> e = UnicodeDecodeError"
proof (induction bs arbitrary: n a lo hi)
  case Nil
  then show ?case by (simp split: if_splits)
next
  case (Cons c bs)
  from Cons.prems show ?case
    by (simp add: Let_def split: if_splits sum.splits) (erule Cons.IH)+
qed

lemma decode_utf8_error: "decode_utf8 bs = Inl e \<Longrightarrow> e = UnicodeDecodeError"
  unfolding decode_utf8_def by (rule utf8_go_error)

lemma seal_error: "seal b = Inl e \<Longrightarrow> e = OSError"
  by (auto simp: seal_def buf_seek_end_def Let_def split: if_splits)

lemma seal_at_end: "seal b = Inr b' \<Longrightarrow> pos b' = length (data b')"
  by (auto simp: seal_def buf_seek_end_def buf_truncate_def Let_def split: if_splits)

lemma parts_loop_post:
  assumes "parts_loop sep trm acc s = Some y"
  shows "loop_post sep trm acc s y"
proof (rule parts_loop.raw_induct [where P = loop_post, OF _ assms])
  fix f sep trm acc s y
  assume IH: "\<And>sep trm acc s y. f sep trm acc s = Some y \<Longrightarrow> loop_post sep trm acc s y"
    and step: "(case readline s of (line, r) \<Rightarrow>
        if \<not> prefix ''Content-Disposition:'' line then f sep trm acc r
        else
          (case decode_utf8 (rstrip line) of
             Inl e \<Rightarrow> Some (Inl e)
           | Inr header \<Rightarrow>
               (case get_header_opt (lit ''name'') header of
                  Inl e \<Rightarrow> Some (Inl e)
                | Inr form_name' \<Rightarrow>
                    (case get_header_opt (lit ''filename'') header of
                       Inl e \<Rightarrow> Some (Inl e)
                     | Inr filename' \<Rightarrow>
                         (case skip_headers r of
                            None \<Rightarrow> None
                          | Some r1 \<Rightarrow>
                              (case read_body sep trm TemporaryFile r1 of
                                 None \<Rightarrow> None
                               | Some (b, line', r2) \<Rightarrow>
                                   if line' = trm then
                                     (case seal b of
                                        Inl e \<Rightarrow> Some (Inl e)
                                      | Inr b' \<Rightarrow>
                                          Some (Inr (acc @ [\<lparr>form_name = form_name',
                                                filename = filename', buf = b'\<rparr>])))
                                   else
                                     f sep trm
                                       (acc @ [\<lparr>form_name = form_name',
                                                filename = filename', buf = b\<rparr>]) r2))))))
        = Some y"
  obtain l r where lr: "readline s = (l, r)" by (cases "readline s")
  note sub = readline_lines(1) [OF lr]
  show "loop_post sep trm acc s y"
  proof (cases "prefix ''Content-Disposition:'' l")
    case False
    with step lr have "f sep trm acc r = Some y" by simp
    from IH [OF this] sub show ?thesis by (auto simp: loop_post_def)
  next
    case cd: True
    show ?thesis
    proof (cases "decode_utf8 (rstrip l)")
      case (Inl e)
      with step lr cd have "y = Inl e" by simp
      moreover from cd have "l \<noteq> []" by auto
      with readline_lines(2) [OF lr] have "l \<in> set (readlines s)" .
      ultimately show ?thesis
        using decode_utf8_error [OF Inl] cd Inl by (auto simp: loop_post_def)
    next
      case (Inr header)
      obtain nm fn where nm: "get_header_opt (lit ''name'') header = Inr nm"
        and fn: "get_header_opt (lit ''filename'') header = Inr fn"
        using get_header_opt_total by blast
      from step lr cd Inr nm fn obtain r1 where r1: "skip_headers r = Some r1"
        by (cases "skip_headers r") simp_all
      from step lr cd Inr nm fn r1 obtain b l' r2
        where rb: "read_body sep trm TemporaryFile r1 = Some (b, l', r2)"
        by (cases "read_body sep trm TemporaryFile r1") auto
      from read_body_post [OF rb]
      have l': "l' \<noteq> [] \<longrightarrow> l' \<in> set (readlines r1)"
        and r2: "set (readlines r2) \<subseteq> set (readlines r1)"
        and b: "pos b = length (data b)"
        by (simp_all add: body_post_def TemporaryFile_def)
      note r1s = skip_headers_lines [OF r1]
      show ?thesis
      proof (cases "l' = trm")
        case True
        with l' r1s sub have in_s: "trm \<noteq> [] \<longrightarrow> trm \<in> set (readlines s)" by blast
        show ?thesis
        proof (cases "seal b")
          case (Inl e)
          with step lr cd Inr nm fn r1 rb True have "y = Inl e" by simp
          with in_s seal_error [OF Inl] show ?thesis by (auto simp: loop_post_def)
        next
          case (Inr b')
          with step lr cd \<open>decode_utf8 (rstrip l) = Inr header\<close> nm fn r1 rb True
          have "y = Inr (acc @ [\<lparr>form_name = nm, filename = fn, buf = b'\<rparr>])" by simp
          with in_s seal_at_end [OF Inr] show ?thesis by (auto simp: loop_post_def at_end_def)
        qed
      next
        case False
        with step lr cd Inr nm fn r1 rb
        have "f sep trm (acc @ [\<lparr>form_name = nm, filename = fn, buf = b\<rparr>]) r2 = Some y" by simp
        from IH [OF this] r2 r1s sub b show ?thesis
          by (auto simp: loop_post_def at_end_def)
      qed
    qed
  qed
qed

subsection \<open>The search\<close>

lemma match_at_no_prefix: "\<not> prefix (key @ [0x3D]) s \<Longrightarrow> match_at key s = None"
proof -
  assume np: "\<not> prefix (key @ [0x3D]) s"
  have "prefix (key @ [0x3D]) (key @ [0x3D, 0x22])" by simp
  with np have "\<not> prefix (key @ [0x3D, 0x22]) s"
    using prefix_order.order_trans by blast
  with np show ?thesis by (simp add: match_at_def match_unquoted_def match_quoted_def)
qed

lemma re_search_absent: "\<not> sublist (key @ [0x3D]) header \<Longrightarrow> re_search key header = None"
proof (induction header)
  case Nil
  then show ?case by (simp add: match_at_no_prefix)
next
  case (Cons c header)
  then have "\<not> prefix (key @ [0x3D]) (c # header)" and "\<not> sublist (key @ [0x3D]) header"
    by (simp_all add: sublist_Cons_right)
  with Cons.IH show ?case by (simp add: match_at_no_prefix)
qed

lemma re_search_skip:
  "\<not> sublist (key @ [0x3D]) (pre @ key) \<Longrightarrow>
     re_search key (pre @ key @ 0x3D # t) = re_search key (key @ 0x3D # t)"
proof (induction pre)
  case Nil
  then show ?case by simp
next
  case (Cons c pre)
  then have np: "\<not> prefix (key @ [0x3D]) (c # pre @ key)" and ns: "\<not> sublist (key @ [0x3D]) (pre @ key)"
    by (simp_all add: sublist_Cons_right)
  have "\<not> prefix (key @ [0x3D]) ((c # pre @ key) @ 0x3D # t)"
  proof
    assume "prefix (key @ [0x3D]) ((c # pre @ key) @ 0x3D # t)"
    moreover have "length (key @ [0x3D]) \<le> length (c # pre @ key)" by simp
    ultimately have "prefix (key @ [0x3D]) (c # pre @ key)"
      by (metis prefix_length_prefix prefixI)
    with np show False ..
  qed
  then have "match_at key (c # pre @ key @ 0x3D # t) = None"
    using match_at_no_prefix by simp
  with Cons.IH [OF ns] show ?case by simp
qed

lemma re_search_here: "match_at key s = Some g \<Longrightarrow> re_search key s = Some g"
  by (cases s) simp_all

lemma match_at_unquoted:
  assumes "v \<noteq> []" and "list_all bare v" and "rest = [] \<or> \<not> bare (hd rest)"
  shows "match_at key (key @ 0x3D # v @ rest) = Some (Some v, None)"
proof -
  from assms(3) have "takeWhile bare rest = []" by (cases rest) auto
  with assms(2) have "takeWhile bare (v @ rest) = v"
    by (simp add: list_all_iff)
  with assms(1) show ?thesis
    by (simp add: match_at_def match_unquoted_def)
qed

lemma match_at_quoted:
  assumes "w \<noteq> []" and "0x22 \<notin> set w"
  shows "match_at key (key @ 0x3D # 0x22 # w @ 0x22 # rest) = Some (None, Some w)"
proof -
  have un: "match_unquoted key (key @ 0x3D # 0x22 # w @ 0x22 # rest) = None"
    by (simp add: match_unquoted_def bare_def)
  from assms(2) have "takeWhile (\<lambda>c. c \<noteq> 0x22) (w @ 0x22 # rest) = w"
    and "dropWhile (\<lambda>c. c \<noteq> 0x22) (w @ 0x22 # rest) = 0x22 # rest"
    by (induction w) auto
  with assms(1) un show ?thesis
    by (simp add: match_at_def match_quoted_def)
qed

lemma get_header_opt_absent:
  "\<not> sublist (key @ [0x3D]) header \<Longrightarrow> get_header_opt key header = Inr []"
  by (simp add: get_header_opt_def re_search_absent)

lemma get_header_opt_unquoted:
  assumes "\<not> sublist (key @ [0x3D]) (pre @ key)"
    and "v \<noteq> []" and "list_all bare v" and "rest = [] \<or> \<not> bare (hd rest)"
  shows "get_header_opt key (pre @ key @ [0x3D] @ v @ rest) = Inr v"
  using re_search_here [OF match_at_unquoted [OF assms(2-4), of key]] re_search_skip [OF assms(1), of "v @ rest"]
    assms(2)
  by (simp add: get_header_opt_def)

lemma get_header_opt_quoted:
  assumes "\<not> sublist (key @ [0x3D]) (pre @ key)" and "w \<noteq> []" and "0x22 \<notin> set w"
  shows "get_header_opt key (pre @ key @ [0x3D, 0x22] @ w @ [0x22] @ rest) = Inr (strip w)"
  using re_search_here [OF match_at_quoted [OF assms(2,3), of key rest]]
    re_search_skip [OF assms(1), of "0x22 # w @ 0x22 # rest"]
  by (simp add: get_header_opt_def)

lemma utf8_go_ascii: "ascii bs \<Longrightarrow> utf8_go 0 0 0x80 0xBF bs = Inr (lit bs)"
  by (induction bs) (simp_all add: ascii_def lit_def)

lemma decode_utf8_ascii: "ascii bs \<Longrightarrow> decode_utf8 bs = Inr (lit bs)"
  by (simp add: decode_utf8_def utf8_go_ascii)

lemma ascii_rstrip: "ascii bs \<Longrightarrow> ascii (rstrip bs)"
proof -
  have "set (rstrip bs) \<subseteq> set bs"
    using set_dropWhileD [of _ ascii_space "rev bs"] by (auto simp: rstrip_def)
  then show "ascii bs \<Longrightarrow> ascii (rstrip bs)"
    by (auto simp: ascii_def list_all_iff)
qed

lemma is_disposition_line_ascii:
  "proper_line h \<Longrightarrow> prefix ''Content-Disposition:'' h \<Longrightarrow> ascii h \<Longrightarrow> is_disposition_line h"
  by (simp add: is_disposition_line_def decode_utf8_ascii ascii_rstrip)

lemma opt_value_ascii:
  "ascii h \<Longrightarrow> get_header_opt key (lit (rstrip h)) = Inr v \<Longrightarrow> opt_value key h = v"
  by (simp add: opt_value_def decode_utf8_ascii ascii_rstrip)

lemma delimiters_ascii:
  "ascii b \<Longrightarrow> delimiters (lit b) = Inr (''--'' @ b @ CRLF, ''--'' @ b @ ''--'' @ CRLF)"
  by (simp add: delimiters_def encode_utf8_append encode_utf8_dashes encode_utf8_CRLF
      encode_utf8_dashes_CRLF encode_utf8_ascii ascii_def)

lemma request_delimiters_ascii:
  "req_headers ''Content-Type'' = Some ct \<Longrightarrow> get_header_opt (lit ''boundary'') ct = Inr (lit b)
     \<Longrightarrow> ascii b
     \<Longrightarrow> request_delimiters req_headers = Inr (''--'' @ b @ CRLF, ''--'' @ b @ ''--'' @ CRLF)"
  by (simp add: request_delimiters_def delimiters_ascii)

lemma readlines_Cons:
  "readlines (c # cs) = (case readline (c # cs) of (l, r) \<Rightarrow> l # readlines r)"
  by (subst readlines.simps) (simp split: prod.splits)

subsection \<open>The request and the parts of the examples\<close>

lemma boundary_XYZ:
  "get_header_opt (lit ''boundary'') (lit ''multipart/form-data; boundary=XYZ'') = Inr (lit ''XYZ'')"
  by (simp add: lit_def get_header_opt_def match_at_def match_unquoted_def match_quoted_def
      bare_def isspace_def)

lemma delimiters_XYZ:
  "request_delimiters [''Content-Type'' \<mapsto> lit ''multipart/form-data; boundary=XYZ'']
     = Inr (''--XYZ'' @ CRLF, ''--XYZ--'' @ CRLF)"
  using request_delimiters_ascii [OF _ boundary_XYZ] by (simp add: ascii_def)

lemma decoded_parts_length: "length (decoded_parts ps) = length ps"
  by (induction ps rule: decoded_parts.induct) simp_all



lemma wf_part_ascii:
  assumes "proper_line (disposition p)" and "prefix ''Content-Disposition:'' (disposition p)"
    and "ascii (disposition p)" and "list_all is_extra_header (headers p)"
    and "sep \<notin> set (readlines (content p @ CRLF))" and "trm \<notin> set (readlines (content p @ CRLF))"
  shows "wf_part sep trm p"
  using assms by (simp add: wf_part_def is_disposition_line_ascii)

lemma wf_file_a: "wf_part (''--XYZ'' @ CRLF) (''--XYZ--'' @ CRLF) file_a"
  by (rule wf_part_ascii)
    (simp_all add: file_a_def proper_line_def ascii_def is_extra_header_def readlines_Cons readlines_Nil)

lemma wf_file_b: "wf_part (''--XYZ'' @ CRLF) (''--XYZ--'' @ CRLF) file_b"
  by (rule wf_part_ascii)
    (simp_all add: file_b_def proper_line_def ascii_def is_extra_header_def readlines_Cons readlines_Nil)

lemma proper_XYZ: "proper_line (''--XYZ'' @ CRLF)"
  by (simp add: proper_line_def)

lemma opt_value_file_a:
  "opt_value (lit ''name'') (disposition file_a) = lit ''files''"
  "opt_value (lit ''filename'') (disposition file_a) = lit ''a.bin''"
  by (rule opt_value_ascii;
      simp add: file_a_def ascii_def rstrip_def ascii_space_def lit_def get_header_opt_def
        match_at_def match_unquoted_def match_quoted_def bare_def isspace_def strip_def)+

lemma opt_value_file_b:
  "opt_value (lit ''name'') (disposition file_b) = lit ''files''"
  "opt_value (lit ''filename'') (disposition file_b) = lit ''b.bin''"
  by (rule opt_value_ascii;
      simp add: file_b_def ascii_def rstrip_def ascii_space_def lit_def get_header_opt_def
        match_at_def match_unquoted_def match_quoted_def bare_def isspace_def strip_def)+

lemma decoded_file_a_file_b:
  "decoded_parts [file_a, file_b]
   = [\<lparr>form_name = lit ''files'', filename = lit ''a.bin'',
         buf = \<lparr>data = ''one'' @ CRLF, pos = 5\<rparr>\<rparr>,
      \<lparr>form_name = lit ''files'', filename = lit ''b.bin'',
         buf = \<lparr>data = ''two'', pos = 3\<rparr>\<rparr>]"
proof -
  have "content file_a = ''one''" and "content file_b = ''two''"
    by (simp_all add: file_a_def file_b_def)
  then show ?thesis
    by (simp add: part_of_def filled_def opt_value_file_a opt_value_file_b)
qed

lemma read_body_skip:
  assumes "\<forall>l\<in>set ls. proper_line l \<and> l \<noteq> sep \<and> l \<noteq> trm"
  shows "read_body sep trm (filled x) (concat ls @ s) = read_body sep trm (filled (x @ concat ls)) s"
  using assms
proof (induction ls arbitrary: x)
  case Nil
  then show ?case by simp
next
  case (Cons l ls)
  then have l: "proper_line l" "l \<noteq> sep" "l \<noteq> trm"
    and ls: "\<forall>l\<in>set ls. proper_line l \<and> l \<noteq> sep \<and> l \<noteq> trm"
    by simp_all
  have "read_body sep trm (filled x) (l @ concat ls @ s)
        = read_body sep trm (filled (x @ l)) (concat ls @ s)"
    using l by (subst read_body.simps) (simp add: readline_proper buf_write_filled)
  with Cons.IH [OF ls, of "x @ l"] show ?case by simp
qed

lemma filled_data: "pos b = length (data b) \<Longrightarrow> filled (data b) = b"
  by (simp add: filled_def)

lemma parts_loop_nonfinal_parts:
  assumes "list_all (wf_part sep trm) ps" and "proper_line sep" and "sep \<noteq> trm"
  shows "parts_loop sep trm acc (concat (map (\<lambda>p. encode_part p @ sep) ps) @ s)
         = parts_loop sep trm (acc @ map (\<lambda>p. part_of (disposition p) (content p @ CRLF)) ps) s"
  using assms(1)
proof (induction ps arbitrary: acc)
  case Nil
  then show ?case by simp
next
  case (Cons p ps)
  then have p: "wf_part sep trm p" and ps: "list_all (wf_part sep trm) ps" by simp_all
  from parts_loop_encode_part [OF p assms(2), of acc "concat (map (\<lambda>p. encode_part p @ sep) ps) @ s"]
    assms(3)
  have "parts_loop sep trm acc (concat (map (\<lambda>p. encode_part p @ sep) (p # ps)) @ s)
        = parts_loop sep trm (acc @ [part_of (disposition p) (content p @ CRLF)])
            (concat (map (\<lambda>p. encode_part p @ sep) ps) @ s)"
    by simp
  with Cons.IH [OF ps, of "acc @ [part_of (disposition p) (content p @ CRLF)]"] show ?case by simp
qed

lemma disposition_text:
  \<open>is_disposition_line (''Content-Disposition: form-data; name="text"'' @ CRLF)\<close>
  by (rule is_disposition_line_ascii) (simp_all add: proper_line_def ascii_def)

lemma parse_multipart_Inr_at_end:
  assumes "parse_multipart req_headers body = Some (Inr ps)"
  shows "list_all at_end ps"
proof -
  from assms obtain sep trm s where "parts_loop sep trm [] s = Some (Inr ps)"
    by (auto simp: parse_multipart_unfold split: sum.splits option.splits)
  from parts_loop_post [OF this] show ?thesis by (simp add: loop_post_def)
qed

lemma parse_multipart_no_terminator:
  assumes rd: "request_delimiters req_headers = Inr (sep, trm)"
    and no: "trm \<notin> set (readlines body)"
    and y: "parse_multipart req_headers body = Some y"
  shows "y = Inl UnicodeDecodeError
         \<and> list_ex (\<lambda>l. isl (decode_utf8 (rstrip l)))
             (filter (prefix ''Content-Disposition:'') (readlines body))"
proof -
  from rd y obtain s where s: "seek_first sep body = Some s" and pl: "parts_loop sep trm [] s = Some y"
    by (auto simp: parse_multipart_unfold split: option.splits)
  note sub = seek_first_lines [OF s]
  from request_delimiters_facts(3) [OF rd] no sub have "trm \<noteq> [] \<and> trm \<notin> set (readlines s)"
    by blast
  with parts_loop_post [OF pl] have "y = Inl UnicodeDecodeError"
    and "\<exists>l\<in>set (readlines s). prefix ''Content-Disposition:'' l \<and> isl (decode_utf8 (rstrip l))"
    by (simp_all add: loop_post_def)
  with sub show ?thesis by (auto simp: list_ex_iff)
qed

lemma parse_multipart_hangs:
  assumes "request_delimiters req_headers = Inr (sep, trm)"
    and "trm \<notin> set (readlines body)"
    and "\<not> list_ex (\<lambda>l. isl (decode_utf8 (rstrip l)))
             (filter (prefix ''Content-Disposition:'') (readlines body))"
  shows "parse_multipart req_headers body = None"
proof (cases "parse_multipart req_headers body")
  case None
  then show ?thesis .
next
  case (Some y)
  from parse_multipart_no_terminator [OF assms(1,2) Some] assms(3) show ?thesis by simp
qed

lemma decodes_text:
  \<open>decode_utf8 (rstrip (''Content-Disposition: form-data; name="text"'' @ CRLF))
     = Inr (lit ''Content-Disposition: form-data; name="text"'')\<close>
proof -
  have r: \<open>rstrip (''Content-Disposition: form-data; name="text"'' @ CRLF)
           = ''Content-Disposition: form-data; name="text"''\<close>
    by (simp add: rstrip_def ascii_space_def)
  show ?thesis unfolding r by (rule decode_utf8_ascii) (simp add: ascii_def)
qed

lemma opt_value_text:
  \<open>opt_value (lit ''name'') (''Content-Disposition: form-data; name="text"'' @ CRLF) = lit ''text''\<close>
  \<open>opt_value (lit ''filename'') (''Content-Disposition: form-data; name="text"'' @ CRLF) = []\<close>
  unfolding opt_value_def decodes_text
  by (simp_all add: lit_def get_header_opt_def match_at_def match_unquoted_def match_quoted_def
      bare_def isspace_def strip_def)

lemma parse_hello:
  \<open>parse_multipart [''Content-Type'' \<mapsto> lit ''multipart/form-data; boundary=XYZ'']
     (''--XYZ'' @ CRLF @ ''Content-Disposition: form-data; name="text"'' @ CRLF @ CRLF
        @ ''hello'' @ CRLF @ ''--XYZ--'' @ CRLF)
   = Some (Inr [\<lparr>form_name = lit ''text'', filename = [],
                   buf = \<lparr>data = ''hello'', pos = 5\<rparr>\<rparr>])\<close>
proof -
  let ?p = \<open>\<lparr>disposition = ''Content-Disposition: form-data; name="text"'' @ CRLF,
              headers = [], content = ''hello''\<rparr>\<close>
  have "wf_part (''--XYZ'' @ CRLF) (''--XYZ--'' @ CRLF) ?p"
    using disposition_text by (simp add: wf_part_def readlines_Cons readlines_Nil)
  then have wf: "list_all (wf_part (''--XYZ'' @ CRLF) (''--XYZ--'' @ CRLF)) [?p]" by simp
  from parse_multipart_encoded [OF delimiters_XYZ proper_XYZ wf, of "[]"] opt_value_text
  show ?thesis
    by (simp add: encode_part_def part_of_def filled_def)
qed

lemma delimiters_empty: "delimiters [] = Inr (''--'' @ CRLF, ''----'' @ CRLF)"
  using delimiters_ascii [of "[]"] by (simp add: ascii_def lit_def)

lemma no_boundary:
  "get_header_opt (lit ''boundary'') (lit ''multipart/form-data'') = Inr []"
  by (simp add: lit_def get_header_opt_def match_at_def match_unquoted_def match_quoted_def)

lemma delimiters_no_boundary:
  "request_delimiters [''Content-Type'' \<mapsto> lit ''multipart/form-data'']
     = Inr (''--'' @ CRLF, ''----'' @ CRLF)"
  by (simp add: request_delimiters_def no_boundary delimiters_empty)

subsection \<open>A line without a value for the key\<close>

lemma match_at_empty_value:
  assumes "value_is_empty rest"
  shows "match_at key (key @ 0x3D # rest) = None"
proof -
  from assms have un: "takeWhile bare rest = []"
    by (cases rest rule: value_is_empty.cases) (auto simp: bare_def)
  from assms have qu: "prefix [0x22] rest \<Longrightarrow> takeWhile (\<lambda>c. c \<noteq> 0x22) (tl rest) = []"
    by (cases rest rule: value_is_empty.cases) (auto simp: isspace_def)
  have "match_unquoted key (key @ 0x3D # rest) = None"
    using un by (simp add: match_unquoted_def)
  moreover have "match_quoted key (key @ 0x3D # rest) = None"
  proof (cases "prefix [0x22] rest")
    case True
    then obtain t where rest: "rest = 0x22 # t" by (cases rest) auto
    with qu [OF True] show ?thesis by (simp add: match_quoted_def)
  next
    case False
    then show ?thesis by (cases rest) (auto simp: match_quoted_def)
  qed
  ultimately show ?thesis by (simp add: match_at_def)
qed

lemma match_at_no_value:
  assumes "if prefix (key @ [0x3D]) s then value_is_empty (drop (length key + 1) s) else True"
  shows "match_at key s = None"
proof (cases "prefix (key @ [0x3D]) s")
  case False
  then show ?thesis by (rule match_at_no_prefix)
next
  case True
  then obtain rest where s: "s = (key @ [0x3D]) @ rest" by (auto simp: prefix_def)
  with assms True have "value_is_empty rest" by simp
  from match_at_empty_value [OF this, of key] s show ?thesis by simp
qed

lemma re_search_no_value: "no_value_for key s \<Longrightarrow> re_search key s = None"
proof (induction s)
  case Nil
  then show ?case by (simp add: match_at_no_prefix)
next
  case (Cons c s)
  from Cons.prems [unfolded no_value_for.simps]
  have here: "if prefix (key @ [0x3D]) (c # s) then value_is_empty (drop (length key + 1) (c # s))
              else True"
    and later: "no_value_for key s"
    by blast+
  from match_at_no_value [OF here] Cons.IH [OF later] show ?case by simp
qed

lemma get_header_opt_no_value: "no_value_for key s \<Longrightarrow> get_header_opt key s = Inr []"
  by (simp add: get_header_opt_def re_search_no_value)

lemma request_delimiters_no_value:
  assumes "req_headers ''Content-Type'' = Some content_type"
    and "no_value_for (lit ''boundary'') content_type"
  shows "request_delimiters req_headers = Inr (''--'' @ CRLF, ''----'' @ CRLF)"
  unfolding request_delimiters_def
  by (simp only: assms(1) get_header_opt_no_value [OF assms(2)] delimiters_empty option.case sum.case)

lemma proper_empty_separator: "proper_line (''--'' @ CRLF)"
  by (simp add: proper_line_def)

lemma wf_text_hello: "wf_part (''--'' @ CRLF) (''----'' @ CRLF) text_hello"
  using disposition_text by (simp add: text_hello_def wf_part_def readlines_Cons readlines_Nil)

section \<open>The properties\<close>

text \<open>
  C10. The extractor searches for the text \<^verbatim>\<open>name=\<close> anywhere in the line, so in a line
  where the \<^verbatim>\<open>filename\<close> parameter comes first the search for \<^verbatim>\<open>name\<close> stops inside
  \<^verbatim>\<open>filename=\<close> and returns the file name \<^verbatim>\<open>a.txt\<close>, not the value \<^verbatim>\<open>x\<close> of the
  \<^verbatim>\<open>name\<close> parameter.
\<close>

theorem name_matches_inside_filename:
  \<open>get_header_opt (lit ''name'') (lit ''form-data; filename="a.txt"; name="x"'')
     = Inr (lit ''a.txt'')\<close>
  by (simp add: lit_def get_header_opt_def match_at_def match_unquoted_def match_quoted_def
      bare_def isspace_def strip_def)

text \<open>
  C7. The specification's contract, and the docstring of \<^verbatim>\<open>get_header_opt\<close>, is that the
  value of the piece \<^verbatim>\<open>key="value"\<close> or \<^verbatim>\<open>key=value\<close> is returned, and the empty string
  when the line has no such piece. The pattern is not anchored at the start of a
  parameter name: in a line where \<^verbatim>\<open>filename\<close> comes first, the lookup of \<^verbatim>\<open>name\<close> returns
  the file name \<^verbatim>\<open>report.pdf\<close> and not the value \<^verbatim>\<open>files\<close> of the \<^verbatim>\<open>name\<close> parameter, and
  in a line with no \<^verbatim>\<open>name\<close> parameter it returns the file name and not the empty string.
\<close>

theorem lookup_returns_other_parameter:
  \<open>get_header_opt (lit ''name'') (lit ''form-data; filename="report.pdf"; name="files"'')
     = Inr (lit ''report.pdf'')
   \<and> lit ''report.pdf'' \<noteq> lit ''files''
   \<and> get_header_opt (lit ''name'') (lit ''form-data; filename="a.txt"'') = Inr (lit ''a.txt'')
   \<and> lit ''a.txt'' \<noteq> []\<close>
  by (simp add: lit_def get_header_opt_def match_at_def match_unquoted_def match_quoted_def
      bare_def isspace_def strip_def)

text \<open>
  C4. Round trip. With the delimiters that the request's \<^verbatim>\<open>Content-Type\<close> gives, the
  separator being one line, the body made of the separator line, a disposition line, a
  blank line, the content \<open>c\<close>, CRLF and the terminator line decodes to exactly one part
  whose buffer holds \<open>c\<close>, for every \<open>c\<close> (empty, or with CR and LF inside) such that no line
  of \<open>c\<close> followed by CRLF is the separator or the terminator.
\<close>

theorem round_trip:
  assumes "request_delimiters req_headers = Inr (sep, trm)" and "proper_line sep"
    and "is_disposition_line h"
    and "sep \<notin> set (readlines (c @ CRLF))" and "trm \<notin> set (readlines (c @ CRLF))"
  shows "\<exists>p. parse_multipart req_headers (sep @ h @ CRLF @ c @ CRLF @ trm) = Some (Inr [p])
           \<and> data (buf p) = c
           \<and> form_name p = opt_value (lit ''name'') h
           \<and> filename p = opt_value (lit ''filename'') h"
proof -
  let ?p = "\<lparr>disposition = h, headers = [], content = c\<rparr>"
  from assms(3-5) have "list_all (wf_part sep trm) [?p]"
    by (simp add: wf_part_def)
  from parse_multipart_encoded [OF assms(1,2) this, of "[]"]
  show ?thesis by (simp add: encode_part_def part_of_def filled_def)
qed

theorem round_trip_witness:
  \<open>request_delimiters [''Content-Type'' \<mapsto> lit ''multipart/form-data; boundary=XYZ'']
     = Inr (''--XYZ'' @ CRLF, ''--XYZ--'' @ CRLF)
   \<and> proper_line (''--XYZ'' @ CRLF)
   \<and> is_disposition_line (''Content-Disposition: form-data; name="text"'' @ CRLF)
   \<and> ''--XYZ'' @ CRLF \<notin> set (readlines ((''hel'' @ CRLF @ ''lo'') @ CRLF))
   \<and> ''--XYZ--'' @ CRLF \<notin> set (readlines ((''hel'' @ CRLF @ ''lo'') @ CRLF))
   \<and> (\<exists>p. parse_multipart [''Content-Type'' \<mapsto> lit ''multipart/form-data; boundary=XYZ'']
             ((''--XYZ'' @ CRLF) @ (''Content-Disposition: form-data; name="text"'' @ CRLF) @ CRLF
                @ (''hel'' @ CRLF @ ''lo'') @ CRLF @ (''--XYZ--'' @ CRLF)) = Some (Inr [p])
           \<and> data (buf p) = ''hel'' @ CRLF @ ''lo''
           \<and> form_name p = opt_value (lit ''name'') (''Content-Disposition: form-data; name="text"'' @ CRLF)
           \<and> filename p = opt_value (lit ''filename'') (''Content-Disposition: form-data; name="text"'' @ CRLF))\<close>
proof -
  have a: "proper_line (''--XYZ'' @ CRLF)"
    by (simp add: proper_line_def)
  have b: \<open>is_disposition_line (''Content-Disposition: form-data; name="text"'' @ CRLF)\<close>
    by (rule is_disposition_line_ascii) (simp_all add: proper_line_def ascii_def)
  have c: "''--XYZ'' @ CRLF \<notin> set (readlines ((''hel'' @ CRLF @ ''lo'') @ CRLF))"
    and d: "''--XYZ--'' @ CRLF \<notin> set (readlines ((''hel'' @ CRLF @ ''lo'') @ CRLF))"
    by (simp_all add: readlines_Cons readlines_Nil)
  from round_trip [OF delimiters_XYZ a b c d] delimiters_XYZ a b c d show ?thesis
    by blast
qed



text \<open>
  C1. The specification requires that no part's buffer ends with the CRLF that preceded
  its delimiter line, at a separator as at the terminator. The code truncates on the
  terminator only: in this body of two parts the buffer of the first, which ends at a
  separator line, holds \<^verbatim>\<open>one\<close> and the CRLF, five bytes; the buffer of the last holds
  \<^verbatim>\<open>two\<close>.
\<close>

theorem separator_sealed_part_keeps_CRLF:
  \<open>parse_multipart [''Content-Type'' \<mapsto> lit ''multipart/form-data; boundary=XYZ'']
     (''--XYZ'' @ CRLF
      @ ''Content-Disposition: form-data; name="files"; filename="a.bin"'' @ CRLF
      @ ''Content-Type: application/octet-stream'' @ CRLF
      @ CRLF
      @ ''one'' @ CRLF
      @ ''--XYZ'' @ CRLF
      @ ''Content-Disposition: form-data; name="files"; filename="b.bin"'' @ CRLF
      @ ''Content-Type: application/octet-stream'' @ CRLF
      @ CRLF
      @ ''two'' @ CRLF
      @ ''--XYZ--'' @ CRLF)
   = Some (Inr [\<lparr>form_name = lit ''files'', filename = lit ''a.bin'',
                   buf = \<lparr>data = ''one'' @ CRLF, pos = 5\<rparr>\<rparr>,
                \<lparr>form_name = lit ''files'', filename = lit ''b.bin'',
                   buf = \<lparr>data = ''two'', pos = 3\<rparr>\<rparr>])\<close>
proof -
  have wf: "list_all (wf_part (''--XYZ'' @ CRLF) (''--XYZ--'' @ CRLF)) [file_a, file_b]"
    using wf_file_a wf_file_b by simp
  have body: \<open>''--XYZ'' @ CRLF
      @ ''Content-Disposition: form-data; name="files"; filename="a.bin"'' @ CRLF
      @ ''Content-Type: application/octet-stream'' @ CRLF
      @ CRLF
      @ ''one'' @ CRLF
      @ ''--XYZ'' @ CRLF
      @ ''Content-Disposition: form-data; name="files"; filename="b.bin"'' @ CRLF
      @ ''Content-Type: application/octet-stream'' @ CRLF
      @ CRLF
      @ ''two'' @ CRLF
      @ ''--XYZ--'' @ CRLF
    = (''--XYZ'' @ CRLF) @ encode_parts (''--XYZ'' @ CRLF) (''--XYZ--'' @ CRLF) [file_a, file_b] @ []\<close>
    by (simp add: encode_part_def file_a_def file_b_def)
  show ?thesis
    unfolding body
    using parse_multipart_encoded [OF delimiters_XYZ proper_XYZ wf, of "[]"]
    by (simp only: decoded_file_a_file_b list.simps not_False_eq_True)
qed

text \<open>
  C6. Boundary exactness. While the body is accumulated from a buffer \<open>b\<close> whose cursor
  is at its end, lines \<open>ls\<close> that are neither the separator nor the terminator are all
  appended as they are, whatever they look like; the line \<open>d\<close> after them ends the loop
  exactly when it is equal to the separator or to the terminator, and is appended like
  the others when it is not.
\<close>

theorem boundary_exactness:
  assumes "list_all (\<lambda>l. proper_line l \<and> l \<noteq> sep \<and> l \<noteq> trm) ls" and "proper_line d"
    and "pos b = length (data b)"
  shows "read_body sep trm b (concat ls @ d @ rest) =
     (if d = sep \<or> d = trm then Some (filled (data b @ concat ls), d, rest)
      else read_body sep trm (filled (data b @ concat ls @ d)) rest)"
proof -
  have "read_body sep trm (filled (data b)) (concat ls @ d @ rest)
        = read_body sep trm (filled (data b @ concat ls)) (d @ rest)"
    using assms(1) by (intro read_body_skip) (simp add: list_all_iff)
  also have "\<dots> = (if d = sep \<or> d = trm then Some (filled (data b @ concat ls), d, rest)
      else read_body sep trm (filled (data b @ concat ls @ d)) rest)"
    using assms(2) by (subst read_body.simps) (simp add: readline_proper buf_write_filled)
  finally show ?thesis by (simp add: filled_data [OF assms(3)])
qed

theorem boundary_exactness_witness:
  "list_all (\<lambda>l. proper_line l \<and> l \<noteq> ''--XYZ'' @ CRLF \<and> l \<noteq> ''--XYZ--'' @ CRLF)
     [''see BOUNDARY XYZ'' @ CRLF, ''--XYZ'' @ [LF], ''--XYZ-'' @ CRLF, '' --XYZ'' @ CRLF,
      ''--ABC'' @ CRLF]
   \<and> proper_line (''--XYZ--'' @ CRLF)
   \<and> pos TemporaryFile = length (data TemporaryFile)
   \<and> read_body (''--XYZ'' @ CRLF) (''--XYZ--'' @ CRLF) TemporaryFile
        (concat [''see BOUNDARY XYZ'' @ CRLF, ''--XYZ'' @ [LF], ''--XYZ-'' @ CRLF, '' --XYZ'' @ CRLF,
                 ''--ABC'' @ CRLF] @ (''--XYZ--'' @ CRLF) @ [])
      = Some (filled (''see BOUNDARY XYZ'' @ CRLF @ ''--XYZ'' @ [LF] @ ''--XYZ-'' @ CRLF @ '' --XYZ'' @ CRLF
                 @ ''--ABC'' @ CRLF), ''--XYZ--'' @ CRLF, [])"
proof -
  have a: "list_all (\<lambda>l. proper_line l \<and> l \<noteq> ''--XYZ'' @ CRLF \<and> l \<noteq> ''--XYZ--'' @ CRLF)
     [''see BOUNDARY XYZ'' @ CRLF, ''--XYZ'' @ [LF], ''--XYZ-'' @ CRLF, '' --XYZ'' @ CRLF,
      ''--ABC'' @ CRLF]"
    by (simp add: proper_line_def)
  have b: "proper_line (''--XYZ--'' @ CRLF)"
    by (simp add: proper_line_def)
  have c: "pos TemporaryFile = length (data TemporaryFile)"
    by (simp add: TemporaryFile_def)
  from boundary_exactness [OF a b c, of "[]"] a b c show ?thesis
    by (simp add: TemporaryFile_def)
qed

text \<open>
  C9. The seek before the truncation. Take a request whose delimiters are lines, any
  well-formed parts \<open>ps\<close> ending at separator lines, and a final part with disposition
  line \<open>h\<close>, further header lines \<open>hs\<close>, the blank line, body lines \<open>ls\<close> and the terminator
  line. When fewer than two bytes were written to the final buffer, in particular when
  the terminator line follows the blank line directly (\<open>ls\<close> empty), the decoder raises
  the error of \<^verbatim>\<open>buf.seek(-2, 2)\<close> and returns nothing; it returns its parts exactly when
  the final buffer holds at least two bytes, which the truncation removes.
\<close>

theorem seek_needs_two_bytes:
  assumes "request_delimiters req_headers = Inr (sep, trm)" and "proper_line sep"
    and "list_all (wf_part sep trm) ps"
    and "is_disposition_line h" and "list_all is_extra_header hs"
    and "list_all (\<lambda>l. proper_line l \<and> l \<noteq> sep \<and> l \<noteq> trm) ls"
  shows "parse_multipart req_headers
           (sep @ concat (map (\<lambda>p. encode_part p @ sep) ps)
              @ h @ concat hs @ CRLF @ concat ls @ trm @ rest)
         = (if length (concat ls) < 2 then Some (Inl OSError)
            else Some (Inr (map (\<lambda>p. part_of (disposition p) (content p @ CRLF)) ps
                            @ [part_of h (take (length (concat ls) - 2) (concat ls))])))"
proof -
  note f = request_delimiters_facts [OF assms(1)]
  from assms(6) have ls: "\<forall>l\<in>set ls. proper_line l \<and> l \<noteq> sep \<and> l \<noteq> trm"
    by (simp add: list_all_iff)
  have "parts_loop sep trm []
          (concat (map (\<lambda>p. encode_part p @ sep) ps) @ h @ concat hs @ CRLF @ concat ls @ trm @ rest)
        = parts_loop sep trm (map (\<lambda>p. part_of (disposition p) (content p @ CRLF)) ps)
            (h @ concat hs @ CRLF @ concat ls @ trm @ rest)"
    using parts_loop_nonfinal_parts [OF assms(3,2) f(1), of "[]"] by simp
  also have "\<dots> = (if length (concat ls) < 2 then Some (Inl OSError)
            else Some (Inr (map (\<lambda>p. part_of (disposition p) (content p @ CRLF)) ps
                            @ [part_of h (take (length (concat ls) - 2) (concat ls))])))"
    using parts_loop_part [OF assms(4,5) ls f(4) [OF assms(2)], of _ rest] by simp
  finally show ?thesis
    by (simp add: parse_multipart_unfold assms(1) seek_first_hit [OF assms(2)])
qed

theorem seek_needs_two_bytes_witness:
  \<open>request_delimiters [''Content-Type'' \<mapsto> lit ''multipart/form-data; boundary=XYZ'']
     = Inr (''--XYZ'' @ CRLF, ''--XYZ--'' @ CRLF)
   \<and> proper_line (''--XYZ'' @ CRLF)
   \<and> list_all (wf_part (''--XYZ'' @ CRLF) (''--XYZ--'' @ CRLF)) [file_a]
   \<and> is_disposition_line (''Content-Disposition: form-data; name="text"'' @ CRLF)
   \<and> list_all is_extra_header []
   \<and> list_all (\<lambda>l. proper_line l \<and> l \<noteq> ''--XYZ'' @ CRLF \<and> l \<noteq> ''--XYZ--'' @ CRLF) []
   \<and> parse_multipart [''Content-Type'' \<mapsto> lit ''multipart/form-data; boundary=XYZ'']
        ((''--XYZ'' @ CRLF) @ concat (map (\<lambda>p. encode_part p @ ''--XYZ'' @ CRLF) [file_a])
           @ (''Content-Disposition: form-data; name="text"'' @ CRLF) @ concat [] @ CRLF
           @ concat [] @ (''--XYZ--'' @ CRLF) @ [])
      = Some (Inl OSError)\<close>
proof -
  have wf: "list_all (wf_part (''--XYZ'' @ CRLF) (''--XYZ--'' @ CRLF)) [file_a]"
    using wf_file_a by simp
  have hs: "list_all is_extra_header []" by simp
  have ls: "list_all (\<lambda>l. proper_line l \<and> l \<noteq> ''--XYZ'' @ CRLF \<and> l \<noteq> ''--XYZ--'' @ CRLF) []"
    by simp
  from seek_needs_two_bytes [OF delimiters_XYZ proper_XYZ wf disposition_text hs ls, of "[]"]
    delimiters_XYZ proper_XYZ wf disposition_text
  show ?thesis by simp
qed

text \<open>
  C2, as the specification states it, does not hold: decoding would end with a failure
  when the stream ends before the terminator. None of the four loops tests for the end
  of the stream; where the stream ends before the first separator, before a disposition
  line, before the blank line, or inside a body, the decoder does not return at all.
\<close>

theorem end_of_stream_never_returns:
  \<open>parse_multipart [''Content-Type'' \<mapsto> lit ''multipart/form-data; boundary=XYZ'']
      (''preamble'' @ CRLF) = None
   \<and> parse_multipart [''Content-Type'' \<mapsto> lit ''multipart/form-data; boundary=XYZ'']
      (''--XYZ'' @ CRLF) = None
   \<and> parse_multipart [''Content-Type'' \<mapsto> lit ''multipart/form-data; boundary=XYZ'']
      (''--XYZ'' @ CRLF @ ''Content-Disposition: form-data; name="text"'' @ CRLF) = None
   \<and> parse_multipart [''Content-Type'' \<mapsto> lit ''multipart/form-data; boundary=XYZ'']
      (''--XYZ'' @ CRLF @ ''Content-Disposition: form-data; name="text"'' @ CRLF @ CRLF
         @ ''hello'' @ CRLF) = None\<close>
  by (intro conjI; rule parse_multipart_hangs [OF delimiters_XYZ])
    (simp_all add: readlines_Cons readlines_Nil decodes_text [simplified])

text \<open>
  C2, amended. When no line of the stream is the terminator, decoding returns no parts
  and reports no malformed body: either it does not return, or it raises the decoding
  error of a disposition line that is not valid UTF-8, such a line being in the stream.
\<close>

theorem no_terminator_no_result:
  assumes "request_delimiters req_headers = Inr (sep, trm)"
    and "trm \<notin> set (readlines body)"
  shows "parse_multipart req_headers body = None
         \<or> (parse_multipart req_headers body = Some (Inl UnicodeDecodeError)
            \<and> list_ex (\<lambda>l. isl (decode_utf8 (rstrip l)))
                (filter (prefix ''Content-Disposition:'') (readlines body)))"
  using parse_multipart_no_terminator [OF assms] by (cases "parse_multipart req_headers body") auto

theorem no_terminator_no_result_witness:
  \<open>request_delimiters [''Content-Type'' \<mapsto> lit ''multipart/form-data; boundary=XYZ'']
     = Inr (''--XYZ'' @ CRLF, ''--XYZ--'' @ CRLF)
   \<and> ''--XYZ--'' @ CRLF \<notin> set (readlines (''--XYZ'' @ CRLF
         @ ''Content-Disposition: form-data; name="text"'' @ CRLF @ CRLF @ ''hel''))
   \<and> parse_multipart [''Content-Type'' \<mapsto> lit ''multipart/form-data; boundary=XYZ'']
       (''--XYZ'' @ CRLF @ ''Content-Disposition: form-data; name="text"'' @ CRLF @ CRLF @ ''hel'')
      = None\<close>
proof -
  have a: \<open>''--XYZ--'' @ CRLF \<notin> set (readlines (''--XYZ'' @ CRLF
         @ ''Content-Disposition: form-data; name="text"'' @ CRLF @ CRLF @ ''hel''))\<close>
    by (simp add: readlines_Cons readlines_Nil)
  have b: \<open>\<not> list_ex (\<lambda>l. isl (decode_utf8 (rstrip l)))
                (filter (prefix ''Content-Disposition:'') (readlines (''--XYZ'' @ CRLF
         @ ''Content-Disposition: form-data; name="text"'' @ CRLF @ CRLF @ ''hel'')))\<close>
    by (simp add: readlines_Cons readlines_Nil decodes_text [simplified])
  from no_terminator_no_result [OF delimiters_XYZ a] b delimiters_XYZ a show ?thesis
    by blast
qed

text \<open>
  C8, as the specification states it, does not hold: every returned buffer would have
  its cursor at offset 0. The decoder never seeks to the start; for the body of the
  specification's first scenario the cursor of the returned buffer is at offset 5, after
  the five bytes of \<^verbatim>\<open>hello\<close>.
\<close>

theorem cursor_not_at_start:
  \<open>parse_multipart [''Content-Type'' \<mapsto> lit ''multipart/form-data; boundary=XYZ'']
     (''--XYZ'' @ CRLF @ ''Content-Disposition: form-data; name="text"'' @ CRLF @ CRLF
        @ ''hello'' @ CRLF @ ''--XYZ--'' @ CRLF)
   = Some (Inr [\<lparr>form_name = lit ''text'', filename = [],
                   buf = \<lparr>data = ''hello'', pos = 5\<rparr>\<rparr>])
   \<and> pos (buf \<lparr>form_name = lit ''text'', filename = [],
                  buf = \<lparr>data = ''hello'', pos = 5\<rparr>\<rparr>) \<noteq> 0\<close>
  using parse_hello by simp

text \<open>
  C8, amended. For every part returned by a successful decode, the cursor of its buffer
  is at the end of what the buffer holds (the caller seeks to the start before reading),
  for parts that ended at a separator and for the part that ended at the terminator.
\<close>

theorem cursor_at_end_of_buffer:
  "parse_multipart req_headers body = Some (Inr ps)
     \<Longrightarrow> list_all (\<lambda>p. pos (buf p) = length (data (buf p))) ps"
  using parse_multipart_Inr_at_end [of req_headers body ps]
  by (simp add: at_end_def list_all_iff)

theorem cursor_at_end_of_buffer_witness:
  \<open>parse_multipart [''Content-Type'' \<mapsto> lit ''multipart/form-data; boundary=XYZ'']
     (''--XYZ'' @ CRLF @ ''Content-Disposition: form-data; name="text"'' @ CRLF @ CRLF
        @ ''hello'' @ CRLF @ ''--XYZ--'' @ CRLF)
   = Some (Inr [\<lparr>form_name = lit ''text'', filename = [],
                   buf = \<lparr>data = ''hello'', pos = 5\<rparr>\<rparr>])
   \<and> list_all (\<lambda>p. pos (buf p) = length (data (buf p)))
        [\<lparr>form_name = lit ''text'', filename = [], buf = \<lparr>data = ''hello'', pos = 5\<rparr>\<rparr>]\<close>
  using cursor_at_end_of_buffer [OF parse_hello] parse_hello by blast

text \<open>
  C3, as the specification states it, does not hold: a \<^verbatim>\<open>Content-Type\<close> without a
  boundary parameter would make the decoder fail at once. The extractor returns the
  empty string, no check follows, and a body framed by \<^verbatim>\<open>--\<close> and \<^verbatim>\<open>----\<close> is decoded
  into its part.
\<close>

theorem missing_boundary_returns_parts:
  \<open>parse_multipart [''Content-Type'' \<mapsto> lit ''multipart/form-data'']
     (''--'' @ CRLF @ ''Content-Disposition: form-data; name="text"'' @ CRLF @ CRLF
        @ ''hello'' @ CRLF @ ''----'' @ CRLF)
   = Some (Inr [\<lparr>form_name = lit ''text'', filename = [],
                   buf = \<lparr>data = ''hello'', pos = 5\<rparr>\<rparr>])\<close>
proof -
  let ?p = \<open>\<lparr>disposition = ''Content-Disposition: form-data; name="text"'' @ CRLF,
              headers = [], content = ''hello''\<rparr>\<close>
  have "wf_part (''--'' @ CRLF) (''----'' @ CRLF) ?p"
    using disposition_text by (simp add: wf_part_def readlines_Cons readlines_Nil)
  then have wf: "list_all (wf_part (''--'' @ CRLF) (''----'' @ CRLF)) [?p]" by simp
  have pl: "proper_line (''--'' @ CRLF)" by (simp add: proper_line_def)
  from parse_multipart_encoded [OF delimiters_no_boundary pl wf, of "[]"] opt_value_text
  show ?thesis
    by (simp add: encode_part_def part_of_def filled_def)
qed

text \<open>
  C3, amended. For every request whose \<^verbatim>\<open>Content-Type\<close> header is present and gives no
  value for \<^verbatim>\<open>boundary\<close> (the text \<^verbatim>\<open>boundary=\<close> does not occur in it, or is followed by
  an empty value wherever it occurs), the decoder raises no error for it: the extractor
  returns the empty string, every body is decoded with the separator \<^verbatim>\<open>--\<close> CRLF and the
  terminator \<^verbatim>\<open>----\<close> CRLF, and a well-formed body framed by them is decoded into as many
  parts as it has.
\<close>

theorem empty_boundary_is_decoded:
  assumes "req_headers ''Content-Type'' = Some content_type"
    and "no_value_for (lit ''boundary'') content_type"
    and "list_all (wf_part (''--'' @ CRLF) (''----'' @ CRLF)) ps" and "ps \<noteq> []"
  shows "get_header_opt (lit ''boundary'') content_type = Inr []
     \<and> parse_multipart req_headers body =
         (case seek_first (''--'' @ CRLF) body of
            None \<Rightarrow> None
          | Some s \<Rightarrow> parts_loop (''--'' @ CRLF) (''----'' @ CRLF) [] s)
     \<and> (\<exists>rs. parse_multipart req_headers
                (''--'' @ CRLF @ encode_parts (''--'' @ CRLF) (''----'' @ CRLF) ps) = Some (Inr rs)
             \<and> length rs = length ps)"
proof -
  note rd = request_delimiters_no_value [of req_headers content_type, OF assms(1,2)]
  have a: "get_header_opt (lit ''boundary'') content_type = Inr []"
    using assms(2) by (rule get_header_opt_no_value)
  have b: "parse_multipart req_headers body =
         (case seek_first (''--'' @ CRLF) body of
            None \<Rightarrow> None
          | Some s \<Rightarrow> parts_loop (''--'' @ CRLF) (''----'' @ CRLF) [] s)"
    unfolding parse_multipart_unfold by (simp only: rd sum.case prod.case)
  from parse_multipart_encoded [OF rd proper_empty_separator assms(3,4), of "[]"]
  have c: "\<exists>rs. parse_multipart req_headers
                (''--'' @ CRLF @ encode_parts (''--'' @ CRLF) (''----'' @ CRLF) ps) = Some (Inr rs)
             \<and> length rs = length ps"
    by (simp add: decoded_parts_length)
  from a b c show ?thesis by blast
qed

theorem empty_boundary_is_decoded_witness:
  \<open>[''Content-Type'' \<mapsto> lit ''multipart/form-data; boundary=""''] ''Content-Type''
     = Some (lit ''multipart/form-data; boundary=""'')
   \<and> no_value_for (lit ''boundary'') (lit ''multipart/form-data; boundary=""'')
   \<and> list_all (wf_part (''--'' @ CRLF) (''----'' @ CRLF)) [text_hello]
   \<and> [text_hello] \<noteq> []
   \<and> get_header_opt (lit ''boundary'') (lit ''multipart/form-data; boundary=""'') = Inr []
   \<and> parse_multipart [''Content-Type'' \<mapsto> lit ''multipart/form-data; boundary=""''] (''--'' @ CRLF)
     = (case seek_first (''--'' @ CRLF) (''--'' @ CRLF) of
          None \<Rightarrow> None
        | Some s \<Rightarrow> parts_loop (''--'' @ CRLF) (''----'' @ CRLF) [] s)
   \<and> (\<exists>rs. parse_multipart [''Content-Type'' \<mapsto> lit ''multipart/form-data; boundary=""'']
                (''--'' @ CRLF @ encode_parts (''--'' @ CRLF) (''----'' @ CRLF) [text_hello])
              = Some (Inr rs)
             \<and> length rs = length [text_hello])\<close>
proof -
  have a: \<open>[''Content-Type'' \<mapsto> lit ''multipart/form-data; boundary=""''] ''Content-Type''
     = Some (lit ''multipart/form-data; boundary=""'')\<close>
    by simp
  have b: \<open>no_value_for (lit ''boundary'') (lit ''multipart/form-data; boundary=""'')\<close>
    by (simp add: lit_def)
  have c: "list_all (wf_part (''--'' @ CRLF) (''----'' @ CRLF)) [text_hello]"
    using wf_text_hello by simp
  have d: "[text_hello] \<noteq> []" by simp
  from empty_boundary_is_decoded
        [where req_headers = \<open>[''Content-Type'' \<mapsto> lit ''multipart/form-data; boundary=""'']\<close>
           and content_type = \<open>lit ''multipart/form-data; boundary=""''\<close>
           and body = "''--'' @ CRLF", OF a b c d]
    a b c d
  show ?thesis by blast
qed

end
